theory Spec2Isabelle
  imports Main "HOL-Library.Sublist"
begin

section \<open>Python strings\<close>

text \<open>
  Python strings are modelled as \<open>string\<close>, a character standing for a code point below
  256. The substring test \<open>a in b\<close> on two strings
  is \<open>sublist a b\<close>, \<open>b.startswith(a)\<close> is \<open>prefix a b\<close> and \<open>b.endswith(a)\<close> is
  \<open>suffix a b\<close>.
\<close>

text \<open>
  \<open>s.replace(old, new)\<close>: every non-overlapping occurrence of \<open>old\<close>, found from the left,
  is replaced; an empty \<open>old\<close> matches before every character and at the end.
\<close>

function replace :: "string \<Rightarrow> string \<Rightarrow> string \<Rightarrow> string" where
  "replace old new [] = (if old = [] then new else [])"
| "replace old new (c # cs) =
     (if old = [] then new @ c # replace old new cs
      else if prefix old (c # cs) then new @ replace old new (drop (length old) (c # cs))
      else c # replace old new cs)"
  by pat_completeness auto
termination
  by (relation "measure (\<lambda>(old, new, s). length s)") auto

text \<open>
  \<open>str.isspace\<close> on the code points below 256: tab, line feed, vertical tab, form feed,
  carriage return, the four separators 0x1C to 0x1F, the space, the next-line character
  0x85 and the no-break space 0xA0.
\<close>

definition isspace :: "char \<Rightarrow> bool" where
  "isspace c = (of_char c \<in> {9, 10, 11, 12, 13, 28, 29, 30, 31, 32, 133, 160 :: nat})"

text \<open>\<open>s.strip()\<close> removes leading and trailing whitespace.\<close>

definition strip :: "string \<Rightarrow> string" where
  "strip s = rev (dropWhile isspace (rev (dropWhile isspace s)))"

text \<open>\<open>sep.join(parts)\<close>.\<close>

fun join :: "string \<Rightarrow> string list \<Rightarrow> string" where
  "join sep [] = []"
| "join sep [p] = p"
| "join sep (p # q # ps) = p @ sep @ join sep (q # ps)"

text \<open>\<open>str(n)\<close> for a non-negative integer: its decimal digits.\<close>

definition digit_char :: "nat \<Rightarrow> char" where
  "digit_char d = char_of (48 + d)"

fun str_nat :: "nat \<Rightarrow> string" where
  "str_nat n = (if n < 10 then [digit_char n] else str_nat (n div 10) @ [digit_char (n mod 10)])"

declare str_nat.simps [simp del]

definition is_digit :: "char \<Rightarrow> bool" where
  "is_digit c = (48 \<le> (of_char c :: nat) \<and> (of_char c :: nat) \<le> 57)"

text \<open>The number that a string of decimal digits stands for.\<close>

definition nat_of_digits :: "string \<Rightarrow> nat" where
  "nat_of_digits ds = foldl (\<lambda>a c. 10 * a + (of_char c - 48)) 0 ds"

datatype error = XPathEvalError | AttributeError | TypeError

section \<open>\<open>generate_set_cli_from_configs\<close>\<close>

text \<open>
  \<open>PanConfig(config).set_cli('set ', xpath='./')\<close> belongs to the pan-python library and is
  a parameter \<open>set_cli\<close> of the model: for a configuration text it gives the list of set
  commands, or \<open>None\<close>. Iterating over \<open>None\<close>, and testing membership in \<open>None\<close>, raise
  \<open>TypeError\<close>.
\<close>

definition cmd_cleaned :: "string \<Rightarrow> string" where
  "cmd_cleaned cmd =
     replace ''vsys vsys1 '' ''''
       (replace [CHR 0x0A] '' ''
         (replace ''devices localhost.localdomain '' '''' cmd))"

text \<open>The loop \<open>for cmd in l_set\<close>, with the list \<open>diffs\<close> built so far.\<close>

fun diffs_loop :: "string list option \<Rightarrow> string list \<Rightarrow> string list \<Rightarrow> error + string list" where
  "diffs_loop p_set [] diffs = Inr diffs"
| "diffs_loop p_set (cmd # l_set) diffs =
     (case p_set of
        None \<Rightarrow> Inl TypeError
      | Some ps \<Rightarrow>
          if cmd \<notin> set ps \<and> \<not> sublist ''set readonly'' cmd
          then diffs_loop p_set l_set (diffs @ [cmd_cleaned cmd])
          else diffs_loop p_set l_set diffs)"

definition generate_set_cli_from_configs ::
  "(string \<Rightarrow> string list option) \<Rightarrow> string \<Rightarrow> string \<Rightarrow> error + string list" where
  "generate_set_cli_from_configs set_cli previous_config latest_config =
     (let p_set = set_cli previous_config;
          l_set = set_cli latest_config
      in case l_set of
           None \<Rightarrow> Inl TypeError
         | Some ls \<Rightarrow> diffs_loop p_set ls [])"

section \<open>Element trees\<close>

text \<open>
  A configuration document is handled as the element tree that \<open>etree.fromstring\<close> gives:
  every element has a tag, its attributes in document order, the text before its first
  child, the text that follows its end tag inside its parent (the tail), and its child
  elements. Documents are taken without comments, processing instructions and namespaces.
\<close>

datatype element =
  Element (el_tag: string) (el_attrib: "(string \<times> string) list")
    (el_text: "string option") (el_tail: "string option") (el_children: "element list")

text \<open>
  \<open>etree.tostring(el)\<close>, whose default encoding is ASCII: the outer markup of the element
  followed by its tail. An element with neither text nor children is written as an
  empty-element tag. In text and attribute values the markup characters are escaped and
  a character above 0x7F is written as a decimal character reference.
\<close>

fun escape_text :: "string \<Rightarrow> string" where
  "escape_text [] = []"
| "escape_text (c # cs) =
     (if c = CHR ''&'' then ''&amp;'' else if c = CHR ''<'' then ''&lt;''
      else if c = CHR ''>'' then ''&gt;'' else if c = CHR 0x0D then ''&#13;''
      else if 128 \<le> (of_char c :: nat) then ''&#'' @ str_nat (of_char c) @ '';'' else [c])
     @ escape_text cs"

fun escape_attr :: "string \<Rightarrow> string" where
  "escape_attr [] = []"
| "escape_attr (c # cs) =
     (if c = CHR ''&'' then ''&amp;'' else if c = CHR ''<'' then ''&lt;''
      else if c = CHR ''>'' then ''&gt;'' else if c = CHR 0x22 then ''&quot;''
      else if c = CHR 0x09 then ''&#9;'' else if c = CHR 0x0A then ''&#10;''
      else if c = CHR 0x0D then ''&#13;''
      else if 128 \<le> (of_char c :: nat) then ''&#'' @ str_nat (of_char c) @ '';'' else [c])
     @ escape_attr cs"

definition opt_text :: "string option \<Rightarrow> string" where
  "opt_text t = (case t of None \<Rightarrow> [] | Some s \<Rightarrow> escape_text s)"

definition attr_markup :: "string \<times> string \<Rightarrow> string" where
  "attr_markup kv = '' '' @ fst kv @ [CHR ''='', CHR 0x22] @ escape_attr (snd kv) @ [CHR 0x22]"

fun tostring :: "element \<Rightarrow> string" where
  "tostring (Element t a tx ta ch) =
     ''<'' @ t @ concat (map attr_markup a)
     @ (if tx = None \<and> ch = [] then ''/>''
        else ''>'' @ opt_text tx @ concat (map tostring ch) @ ''</'' @ t @ ''>'')
     @ opt_text ta"

section \<open>Location paths\<close>

text \<open>
  Every xpath string of the tree walk is \<open>.\<close> followed by segments \<open>/segment\<close>. The model
  keeps such a string as the list of its segments; \<open>xpath_str\<close> is the string itself. The
  four shapes of segment are the four values that the walk gives to \<open>path_entry\<close>.
\<close>

datatype step =
  Tag string
| TagAttrs string "(string \<times> string) list"
| TagText string string
| TagIndex string nat

definition attr_pred :: "string \<times> string \<Rightarrow> string" where
  "attr_pred kv = ''@'' @ fst kv @ [CHR ''='', CHR 0x22] @ snd kv @ [CHR 0x22]"

fun step_str :: "step \<Rightarrow> string" where
  "step_str (Tag t) = t"
| "step_str (TagAttrs t kvs) = t @ ''['' @ join '' '' (map attr_pred kvs) @ '']''"
| "step_str (TagText t s) = t @ ''[text()='' @ [CHR 0x22] @ s @ [CHR 0x22] @ '']''"
| "step_str (TagIndex t n) = t @ ''['' @ str_nat n @ '']''"

definition xpath_str :: "step list \<Rightarrow> string" where
  "xpath_str p = ''.'' @ concat (map (\<lambda>s. ''/'' @ step_str s) p)"

text \<open>
  \<open>doc.xpath(path)\<close> is lxml's and receives the string. The model evaluates the segments:
  the children of the context nodes with the tag of the segment that have the attribute
  value, or a text node equal to the text, or the position among the children of that
  tag, in document order. A predicate that holds no attribute test (\<open>tag[]\<close>) or several
  tests separated by spaces (\<open>tag[@a="1" @b="2"]\<close>) is not an XPath expression and raises
  \<open>XPathEvalError\<close>. The text nodes of an element are its own text and the tails of its
  children. The string denotes these segments when they are plain (\<open>plain_step\<close> below):
  a double quote inside an attribute value or a text ends the string literal of the
  predicate early, and lxml then reads another expression. The results that depend on
  what an xpath selects are stated for plain documents.
\<close>

fun valid_step :: "step \<Rightarrow> bool" where
  "valid_step (Tag t) = True"
| "valid_step (TagAttrs t kvs) = (length kvs = 1)"
| "valid_step (TagText t s) = True"
| "valid_step (TagIndex t n) = True"

definition text_nodes :: "element \<Rightarrow> string list" where
  "text_nodes e =
     (case el_text e of None \<Rightarrow> [] | Some s \<Rightarrow> [s])
     @ concat (map (\<lambda>c. case el_tail c of None \<Rightarrow> [] | Some s \<Rightarrow> [s]) (el_children e))"

fun has_attrs :: "(string \<times> string) list \<Rightarrow> element \<Rightarrow> bool" where
  "has_attrs [] e = True"
| "has_attrs (kv # kvs) e = (map_of (el_attrib e) (fst kv) = Some (snd kv) \<and> has_attrs kvs e)"

fun select_step :: "step \<Rightarrow> element list \<Rightarrow> element list" where
  "select_step (Tag t) cs = filter (\<lambda>c. el_tag c = t) cs"
| "select_step (TagAttrs t kvs) cs = filter (\<lambda>c. el_tag c = t \<and> has_attrs kvs c) cs"
| "select_step (TagText t s) cs = filter (\<lambda>c. el_tag c = t \<and> s \<in> set (text_nodes c)) cs"
| "select_step (TagIndex t n) cs =
     (let named = filter (\<lambda>c. el_tag c = t) cs
      in if 1 \<le> n \<and> n \<le> length named then [named ! (n - 1)] else [])"

fun select_path :: "element list \<Rightarrow> step list \<Rightarrow> element list" where
  "select_path ctx [] = ctx"
| "select_path ctx (s # p) =
     select_path (concat (map (\<lambda>c. select_step s (el_children c)) ctx)) p"

definition xpath :: "element \<Rightarrow> step list \<Rightarrow> error + element list" where
  "xpath doc p = (if list_all valid_step p then Inr (select_path [doc] p) else Inl XPathEvalError)"

section \<open>The tree comparator\<close>

text \<open>\<open>__check_children_are_list\<close>: the loop over the children with \<open>found_tag_name\<close>.\<close>

fun tag_names_loop :: "string \<Rightarrow> element list \<Rightarrow> bool" where
  "tag_names_loop found_tag_name [] = True"
| "tag_names_loop found_tag_name (child # c) =
     (if found_tag_name = [] then tag_names_loop (el_tag child) c
      else if found_tag_name \<noteq> el_tag child then False
      else tag_names_loop found_tag_name c)"

definition check_children_are_list :: "element list \<Rightarrow> bool" where
  "check_children_are_list c = (if length c \<le> 1 then False else tag_names_loop [] c)"

text \<open>
  The value of \<open>path_entry\<close> for a child \<open>e\<close> in the loop of \<open>__check_element\<close>. With
  \<open>is_list\<close> set and no attributes the code calls \<open>e.text.strip()\<close>, which raises
  \<open>AttributeError\<close> when \<open>e.text\<close> is \<open>None\<close>.
\<close>

definition path_entry :: "bool \<Rightarrow> nat \<Rightarrow> element \<Rightarrow> error + step" where
  "path_entry is_list index e =
     (if el_attrib e \<noteq> []
      then Inr (TagAttrs (el_tag e) (filter (\<lambda>kv. fst kv \<noteq> ''uuid'') (el_attrib e)))
      else if is_list
      then (case el_text e of
              None \<Rightarrow> Inl AttributeError
            | Some t \<Rightarrow>
                if strip t \<noteq> [] then Inr (TagText (el_tag e) (strip t))
                else Inr (TagIndex (el_tag e) index))
      else Inr (Tag (el_tag e)))"

text \<open>
  \<open>__check_element\<close>. \<open>xmldiff\<close>'s \<open>diff_trees\<close> is a parameter: \<open>diff_trees a b\<close> is the
  number of edit actions it reports between the trees \<open>a\<close> and \<open>b\<close>, of which the code
  only tests whether it is zero. \<open>check_children\<close> is the loop \<open>for e in el\<close> with its
  counter \<open>index\<close> and the list \<open>not_founds\<close>.
\<close>

fun check_element ::
    "(element \<Rightarrow> element \<Rightarrow> nat) \<Rightarrow> element \<Rightarrow> step list \<Rightarrow> element \<Rightarrow> step list list
      \<Rightarrow> error + step list list"
  and check_children ::
    "(element \<Rightarrow> element \<Rightarrow> nat) \<Rightarrow> bool \<Rightarrow> nat \<Rightarrow> element list \<Rightarrow> step list \<Rightarrow> element
      \<Rightarrow> step list list \<Rightarrow> error + step list list"
  where
  "check_element diff_trees (Element t a tx ta ch) xp pc not_founds =
     (case xpath pc xp of
        Inl err \<Rightarrow> Inl err
      | Inr [] \<Rightarrow> Inr (not_founds @ [xp])
      | Inr (found_element # others) \<Rightarrow>
          if ch = []
          then (if el_text found_element \<noteq> tx then Inr (not_founds @ [xp]) else Inr not_founds)
          else if check_children_are_list ch
                  \<and> diff_trees found_element (Element t a tx ta ch) = 0
          then Inr not_founds
          else check_children diff_trees (check_children_are_list ch) 1 ch xp pc not_founds)"
| "check_children diff_trees is_list index [] xp pc not_founds = Inr not_founds"
| "check_children diff_trees is_list index (e # es) xp pc not_founds =
     (case path_entry is_list index e of
        Inl err \<Rightarrow> Inl err
      | Inr pe \<Rightarrow>
          (case check_element diff_trees e (xp @ [pe]) pc [] of
             Inl err \<Rightarrow> Inl err
           | Inr new_not_founds \<Rightarrow>
               check_children diff_trees is_list (index + 1) es xp pc
                 (not_founds @ new_not_founds)))"

section \<open>Snippets and their order\<close>

text \<open>The dictionary built for every change: its four keys are the fields.\<close>

record snippet =
  snippet_name :: string
  snippet_xpath :: string
  snippet_element :: string
  snippet_full_xpath :: string

text \<open>
  \<open>__split_xpath\<close>: \<open>re.split\<close> cuts the string at every \<open>/\<close> that is followed by an even
  number of double quotes up to the end of the string; the last part is the entry, the
  parts before it are joined again.
\<close>

fun split_parts :: "string \<Rightarrow> string list" where
  "split_parts [] = [[]]"
| "split_parts (c # cs) =
     (if c = CHR ''/'' \<and> even (count_list cs (CHR 0x22)) then [] # split_parts cs
      else (case split_parts cs of
              [] \<Rightarrow> [[c]]
            | part # parts \<Rightarrow> (c # part) # parts))"

definition split_xpath :: "string \<Rightarrow> string \<times> string" where
  "split_xpath xpath_s =
     (let xpath_parts = split_parts xpath_s;
          new_xpath = join ''/'' (butlast xpath_parts);
          entry = last xpath_parts
      in (new_xpath, entry))"

text \<open>\<open>re.sub(r'^\./', r'/config/', s)\<close>.\<close>

definition sub_dot_config :: "string \<Rightarrow> string" where
  "sub_dot_config s = (if prefix ''./'' s then ''/config/'' @ drop 2 s else s)"

text \<open>
  \<open>re.sub(r'^/config/', r'\./', s)\<close>: the template keeps the backslash, which is no
  escape before a dot.
\<close>

definition sub_config_dot :: "string \<Rightarrow> string" where
  "sub_config_dot s = (if prefix ''/config/'' s then CHR 0x5C # ''./'' @ drop 8 s else s)"

text \<open>
  \<open>re.sub(r'\[.*\]', '', s)\<close>: from the left, an opening bracket with a closing bracket
  later on its line is removed together with everything up to the last closing bracket of
  that line (the dot matches no line feed).
\<close>

function sub_brackets :: "string \<Rightarrow> string" where
  "sub_brackets [] = []"
| "sub_brackets (c # cs) =
     (let line = takeWhile (\<lambda>x. x \<noteq> CHR 0x0A) cs
      in if c = CHR ''['' \<and> CHR '']'' \<in> set line
         then sub_brackets
                (drop (length line - length (takeWhile (\<lambda>x. x \<noteq> CHR '']'') (rev line))) cs)
         else c # sub_brackets cs)"
  by pat_completeness auto
termination
  by (relation "measure length") auto

definition ignored_xpaths :: "string list" where
  "ignored_xpaths =
     [''/config/mgt-config/users/entry[@name='' @ [CHR 0x22] @ ''admin'' @ [CHR 0x22] @ '']'']"

text \<open>
  The loop \<open>for xpath in not_found_xpaths\<close> of \<open>generate_skillet_from_configs\<close>, with the
  list \<open>snippets\<close> built so far. \<open>int(random.random() * 1000000)\<close> is a parameter: the
  draw for the snippet that is appended as number \<open>k\<close> (from 0) is \<open>random_int k\<close>.
\<close>

fun snippets_loop ::
    "(nat \<Rightarrow> nat) \<Rightarrow> element \<Rightarrow> step list list \<Rightarrow> snippet list \<Rightarrow> error + snippet list" where
  "snippets_loop random_int latest_doc [] snippets = Inr snippets"
| "snippets_loop random_int latest_doc (xp # not_found_xpaths) snippets =
     (case split_xpath (xpath_str xp) of (new_xpath, entry) \<Rightarrow>
      let set_xpath = sub_dot_config new_xpath;
          full_relative_xpath = sub_config_dot (xpath_str xp);
          tag = sub_brackets entry
      in if set_xpath \<in> set ignored_xpaths
         then snippets_loop random_int latest_doc not_found_xpaths snippets
         else (case xpath latest_doc xp of
                 Inl err \<Rightarrow> Inl err
               | Inr [] \<Rightarrow> snippets_loop random_int latest_doc not_found_xpaths snippets
               | Inr (changed_element # others) \<Rightarrow>
                   snippets_loop random_int latest_doc not_found_xpaths
                     (snippets @
                       [\<lparr>snippet_name = tag @ ''-'' @ str_nat (random_int (length snippets)),
                         snippet_xpath = set_xpath,
                         snippet_element = strip (tostring changed_element),
                         snippet_full_xpath = full_relative_xpath\<rparr>])))"

text \<open>
  \<open>__order_snippets\<close>. In the source no comma follows the literal \<open>'/shared/'\<close>, so that
  Python joins it with the next literal into the one prefix \<open>/shared//tag/entry\<close>.
\<close>

definition xpaths :: "string list" where
  "xpaths =
     [''/shared/certificate'',
      ''/shared/ssl-tls-service-profile'',
      ''/shared/tag'',
      ''/shared/profiles'',
      ''/shared/reports'',
      ''/shared//tag/entry'',
      ''/deviceconfig/system'',
      ''/network/interface'', ''/network/virtual-wire'', ''/network/vlan'',
      ''/network/ike'', ''/network/tunnel'',
      ''/network/virtual-router'', ''/network/profiles/zone-protection-profile'', ''/zone/entry'',
      ''/profiles/custom-url-category'',
      ''/address/entry'']"

definition post_xpaths :: "string list" where
  "post_xpaths = [''/rulebase'']"

definition filter_snippets_by_xpath :: "snippet list \<Rightarrow> string \<Rightarrow> snippet list" where
  "filter_snippets_by_xpath snippets x =
     filter (\<lambda>s. sublist x (snippet_full_xpath s)) snippets"

text \<open>The two loops of \<open>extend\<close> calls, over \<open>xpaths\<close> and over \<open>post_xpaths\<close>.\<close>

fun extend_loop :: "snippet list \<Rightarrow> string list \<Rightarrow> snippet list \<Rightarrow> snippet list" where
  "extend_loop snippets [] acc = acc"
| "extend_loop snippets (x # xs) acc =
     extend_loop snippets xs (acc @ filter_snippets_by_xpath snippets x)"

text \<open>The loop \<open>for s in snippets\<close>.\<close>

fun rest_loop :: "snippet list \<Rightarrow> snippet list \<Rightarrow> snippet list \<Rightarrow> snippet list" where
  "rest_loop [] post_snippets ordered_snippets = ordered_snippets"
| "rest_loop (s # snippets) post_snippets ordered_snippets =
     (if s \<notin> set ordered_snippets \<and> s \<notin> set post_snippets
      then rest_loop snippets post_snippets (ordered_snippets @ [s])
      else rest_loop snippets post_snippets ordered_snippets)"

text \<open>The loop \<open>for ps in post_snippets\<close>.\<close>

fun post_loop :: "snippet list \<Rightarrow> snippet list \<Rightarrow> snippet list" where
  "post_loop [] ordered_snippets = ordered_snippets"
| "post_loop (ps # post_snippets) ordered_snippets =
     (if ps \<notin> set ordered_snippets
      then post_loop post_snippets (ordered_snippets @ [ps])
      else post_loop post_snippets ordered_snippets)"

definition order_snippets :: "snippet list \<Rightarrow> snippet list" where
  "order_snippets snippets =
     (let ordered_snippets = extend_loop snippets xpaths [];
          post_snippets = extend_loop snippets post_xpaths []
      in post_loop post_snippets (rest_loop snippets post_snippets ordered_snippets))"

section \<open>\<open>generate_skillet_from_configs\<close>\<close>

text \<open>The loop \<open>for c in latest_doc\<close>, which starts the comparator at every child of the root.\<close>

fun not_found_loop ::
    "(element \<Rightarrow> element \<Rightarrow> nat) \<Rightarrow> element list \<Rightarrow> element \<Rightarrow> step list list
      \<Rightarrow> error + step list list" where
  "not_found_loop diff_trees [] previous_doc not_found_xpaths = Inr not_found_xpaths"
| "not_found_loop diff_trees (c # cs) previous_doc not_found_xpaths =
     (case check_element diff_trees c [Tag (el_tag c)] previous_doc [] of
        Inl err \<Rightarrow> Inl err
      | Inr these_not_found_xpaths \<Rightarrow>
          not_found_loop diff_trees cs previous_doc
            (not_found_xpaths @ these_not_found_xpaths))"

text \<open>
  The two documents are given as the trees that \<open>etree.fromstring\<close> returns for the two
  configuration texts.
\<close>

definition generate_skillet_from_configs ::
    "(element \<Rightarrow> element \<Rightarrow> nat) \<Rightarrow> (nat \<Rightarrow> nat) \<Rightarrow> element \<Rightarrow> element \<Rightarrow> error + snippet list" where
  "generate_skillet_from_configs diff_trees random_int previous_doc latest_doc =
     (case not_found_loop diff_trees (el_children latest_doc) previous_doc [] of
        Inl err \<Rightarrow> Inl err
      | Inr not_found_xpaths \<Rightarrow>
          (case snippets_loop random_int latest_doc not_found_xpaths [] of
             Inl err \<Rightarrow> Inl err
           | Inr snippets \<Rightarrow> Inr (order_snippets snippets)))"

text \<open>
  \<open>__clean_uuid\<close>: \<open>findall('.//*[@uuid]')\<close> gives the descendants of the element that
  carry a \<open>uuid\<close> attribute, not the element itself, and the attribute is popped from each
  of them. \<open>None\<close> is returned as it is.
\<close>

fun pop_uuid_below :: "element \<Rightarrow> element" where
  "pop_uuid_below (Element t a tx ta ch) =
     Element t a tx ta
       (map (\<lambda>c. case pop_uuid_below c of
                   Element t' a' tx' ta' ch' \<Rightarrow>
                     Element t' (filter (\<lambda>kv. fst kv \<noteq> ''uuid'') a') tx' ta' ch') ch)"

definition clean_uuid :: "element option \<Rightarrow> element option" where
  "clean_uuid changed_element =
     (case changed_element of None \<Rightarrow> None | Some el \<Rightarrow> Some (pop_uuid_below el))"

text \<open>
  Stand-ins for the two parameters at concrete inputs: a tree diff that reports no edit
  action between equal trees and one action otherwise, and a random source that always
  draws 7.
\<close>

definition equal_trees_diff :: "element \<Rightarrow> element \<Rightarrow> nat" where
  "equal_trees_diff a b = (if a = b then 0 else 1)"

definition draw_seven :: "nat \<Rightarrow> nat" where
  "draw_seven k = 7"

section \<open>Notions used in the statements\<close>

text \<open>
  Plain documents. A name is a non-empty string of ASCII letters, digits, hyphens,
  underscores and full stops that starts with a letter or an underscore. An element is
  plain when its tag and attribute names are names, its attribute values and its text
  hold no double quote, and its children are plain; a document is plain when the children
  of its root are. A segment is plain when it
  is built from such parts. The element type has no comments or processing instructions,
  on which the loops of the walk fail.
\<close>

definition name_char :: "char \<Rightarrow> bool" where
  "name_char c =
     (let n = (of_char c :: nat)
      in (48 \<le> n \<and> n \<le> 57) \<or> (65 \<le> n \<and> n \<le> 90) \<or> (97 \<le> n \<and> n \<le> 122)
         \<or> n = 45 \<or> n = 46 \<or> n = 95)"

definition name_start_char :: "char \<Rightarrow> bool" where
  "name_start_char c =
     (let n = (of_char c :: nat)
      in (65 \<le> n \<and> n \<le> 90) \<or> (97 \<le> n \<and> n \<le> 122) \<or> n = 95)"

definition xml_name :: "string \<Rightarrow> bool" where
  "xml_name t = (t \<noteq> [] \<and> name_start_char (hd t) \<and> list_all name_char t)"

definition quote_free :: "string \<Rightarrow> bool" where
  "quote_free v = (CHR 0x22 \<notin> set v)"

definition plain_attr :: "string \<times> string \<Rightarrow> bool" where
  "plain_attr kv = (xml_name (fst kv) \<and> quote_free (snd kv))"

fun plain_element :: "element \<Rightarrow> bool" where
  "plain_element (Element t a tx ta ch) =
     (xml_name t \<and> list_all plain_attr a
      \<and> (case tx of None \<Rightarrow> True | Some s \<Rightarrow> quote_free s)
      \<and> list_all plain_element ch)"

definition plain_doc :: "element \<Rightarrow> bool" where
  "plain_doc doc = list_all plain_element (el_children doc)"

fun plain_step :: "step \<Rightarrow> bool" where
  "plain_step (Tag t) = xml_name t"
| "plain_step (TagAttrs t kvs) = (xml_name t \<and> list_all plain_attr kvs)"
| "plain_step (TagText t s) = (xml_name t \<and> quote_free s)"
| "plain_step (TagIndex t n) = xml_name t"

text \<open>The two parts of the string of a segment: its tag and its predicate.\<close>

fun step_body :: "step \<Rightarrow> string" where
  "step_body (Tag t) = []"
| "step_body (TagAttrs t kvs) = ''['' @ join '' '' (map attr_pred kvs) @ '']''"
| "step_body (TagText t s) = ''[text()='' @ [CHR 0x22] @ s @ [CHR 0x22] @ '']''"
| "step_body (TagIndex t n) = ''['' @ str_nat n @ '']''"

fun step_tag :: "step \<Rightarrow> string" where
  "step_tag (Tag t) = t"
| "step_tag (TagAttrs t kvs) = t"
| "step_tag (TagText t s) = t"
| "step_tag (TagIndex t n) = t"

text \<open>
  One xpath string is a strict descendant of another when it continues it with a further
  segment.
\<close>

definition descendant_str :: "string \<Rightarrow> string \<Rightarrow> bool" where
  "descendant_str p q = (\<exists>rest. q = p @ ''/'' @ rest)"

text \<open>An xpath is found in a document when its evaluation gives at least one node.\<close>

definition found :: "element \<Rightarrow> step list \<Rightarrow> bool" where
  "found doc p = (case xpath doc p of Inl err \<Rightarrow> False | Inr [] \<Rightarrow> False | Inr (f # fs) \<Rightarrow> True)"

text \<open>
  The elements for which the walk builds a given xpath. Below an element, the children
  for which the loop of \<open>__check_element\<close> computes the segment \<open>s\<close> (the counter starts
  at 1, and \<open>is_list\<close> is what the children of that element give); at the root of the
  latest document, the children whose tag is the first segment.
\<close>

definition children_built :: "step \<Rightarrow> element \<Rightarrow> element list" where
  "children_built s e =
     map snd (filter (\<lambda>ic. path_entry (check_children_are_list (el_children e)) (fst ic) (snd ic) = Inr s)
                (enumerate 1 (el_children e)))"

fun walk_nodes :: "element list \<Rightarrow> step list \<Rightarrow> element list" where
  "walk_nodes ctx [] = ctx"
| "walk_nodes ctx (s # p) = walk_nodes (concat (map (children_built s) ctx)) p"

fun visited :: "element \<Rightarrow> step list \<Rightarrow> element list" where
  "visited latest_doc [] = []"
| "visited latest_doc (s # p) =
     walk_nodes (filter (\<lambda>c. s = Tag (el_tag c)) (el_children latest_doc)) p"

text \<open>
  A child is addressed by its own segment when the segment built for it outside a list is a
  valid predicate and selects, first among its siblings, an element equal to it. An
  element is addressable when its children form a list of identical tags, or each child
  is addressed by its own segment and is addressable. A document is addressable when every
  child of the root is the first child of its tag, up to equality, and is addressable.
\<close>

definition first_is :: "element \<Rightarrow> element list \<Rightarrow> bool" where
  "first_is e es = (case es of [] \<Rightarrow> False | f # fs \<Rightarrow> f = e)"

definition self_addressed :: "element list \<Rightarrow> element \<Rightarrow> bool" where
  "self_addressed siblings e =
     (case path_entry False 1 e of
        Inl err \<Rightarrow> False
      | Inr pe \<Rightarrow> valid_step pe \<and> first_is e (select_step pe siblings))"

fun addressable :: "element \<Rightarrow> bool" where
  "addressable (Element t a tx ta ch) =
     (check_children_are_list ch \<or> list_all (\<lambda>e. self_addressed ch e \<and> addressable e) ch)"

definition addressable_doc :: "element \<Rightarrow> bool" where
  "addressable_doc doc =
     list_all (\<lambda>c. first_is c (filter (\<lambda>d. el_tag d = el_tag c) (el_children doc)) \<and> addressable c)
       (el_children doc)"

text \<open>
  What makes the walk add an xpath while it visits an element: the xpath selects nothing in
  the previous document, or the element has no children and its text is not the text of
  the first node that the xpath selects there.
\<close>

definition changed :: "element \<Rightarrow> step list \<Rightarrow> element \<Rightarrow> bool" where
  "changed pc q e = (xpath pc q = Inr [] \<or> (\<exists>f fs. xpath pc q = Inr (f # fs) \<and> el_children e = [] \<and> el_text f \<noteq> el_text e))"


section \<open>Concrete documents\<close>

text \<open>\<open><config><network/></config>\<close>\<close>

definition scenario_a_previous :: element where
  "scenario_a_previous =
     Element ''config'' [] None None [Element ''network'' [] None None []]"

text \<open>\<open><config><network><interface><entry name="eth1"/></interface></network></config>\<close>\<close>

definition scenario_a_latest :: element where
  "scenario_a_latest =
     Element ''config'' [] None None
       [Element ''network'' [] None None
          [Element ''interface'' [] None None
             [Element ''entry'' [(''name'', ''eth1'')] None None []]]]"

text \<open>
  \<open><config><system><server>10.0.0.1</server><server>10.0.0.2</server><hostname>fw</hostname></system></config>\<close>
\<close>

definition two_servers :: element where
  "two_servers =
     Element ''config'' [] None None
       [Element ''system'' [] None None
          [Element ''server'' [] (Some ''10.0.0.1'') None [],
           Element ''server'' [] (Some ''10.0.0.2'') None [],
           Element ''hostname'' [] (Some ''fw'') None []]]"

text \<open>\<open><config><system><server>10.0.0.1</server><hostname>fw</hostname></system></config>\<close>\<close>

definition one_server :: element where
  "one_server =
     Element ''config'' [] None None
       [Element ''system'' [] None None
          [Element ''server'' [] (Some ''10.0.0.1'') None [],
           Element ''hostname'' [] (Some ''fw'') None []]]"

text \<open>\<open><config><system><server>10.0.0.9</server><hostname>fw</hostname></system></config>\<close>\<close>

definition other_server :: element where
  "other_server =
     Element ''config'' [] None None
       [Element ''system'' [] None None
          [Element ''server'' [] (Some ''10.0.0.9'') None [],
           Element ''hostname'' [] (Some ''fw'') None []]]"

text \<open>
  \<open><config><system><server>10.0.0.1</server><server><ip>10.0.0.2</ip></server><hostname>fw</hostname></system></config>\<close>
\<close>

definition nested_server :: element where
  "nested_server =
     Element ''config'' [] None None
       [Element ''system'' [] None None
          [Element ''server'' [] (Some ''10.0.0.1'') None [],
           Element ''server'' [] None None [Element ''ip'' [] (Some ''10.0.0.2'') None []],
           Element ''hostname'' [] (Some ''fw'') None []]]"

text \<open>\<open><address><entry name="a"/><entry name="b"/><entry name="c"/></address>\<close> and the document
  \<open><config>\<close> that holds it with \<open><hostname>fw</hostname>\<close>.\<close>

definition scenario_b_address :: element where
  "scenario_b_address =
     Element ''address'' [] None None
       [Element ''entry'' [(''name'', ''a'')] None None [],
        Element ''entry'' [(''name'', ''b'')] None None [],
        Element ''entry'' [(''name'', ''c'')] None None []]"

definition scenario_b :: element where
  "scenario_b =
     Element ''config'' [] None None
       [scenario_b_address, Element ''hostname'' [] (Some ''fw'') None []]"

text \<open>\<open><config><service><entry name="x"><port>0000</port></entry></service></config>\<close> and the
  same document with the port \<open>6666\<close>.\<close>

definition scenario_c_previous :: element where
  "scenario_c_previous =
     Element ''config'' [] None None
       [Element ''service'' [] None None
          [Element ''entry'' [(''name'', ''x'')] None None
             [Element ''port'' [] (Some ''0000'') None []]]]"

definition scenario_c_latest :: element where
  "scenario_c_latest =
     Element ''config'' [] None None
       [Element ''service'' [] None None
          [Element ''entry'' [(''name'', ''x'')] None None
             [Element ''port'' [] (Some ''6666'') None []]]]"

text \<open>
  \<open><config><shared><address><entry name="a"/><entry name="b"/><entry name="c"/></address></shared><devices><entry name="localhost.localdomain"><deviceconfig><system><hostname>fw</hostname><timezone>UTC</timezone></system></deviceconfig></entry></devices></config>\<close>
\<close>

definition device_config :: element where
  "device_config =
     Element ''config'' [] None None
       [Element ''shared'' [] None None [scenario_b_address],
        Element ''devices'' [] None None
          [Element ''entry'' [(''name'', ''localhost.localdomain'')] None None
             [Element ''deviceconfig'' [] None None
                [Element ''system'' [] None None
                   [Element ''hostname'' [] (Some ''fw'') None [],
                    Element ''timezone'' [] (Some ''UTC'') None []]]]]]"

text \<open>
  \<open><config><network><interface><entry name="eth1"/></interface><vlan/></network></config>\<close>
\<close>

definition interface_and_vlan :: element where
  "interface_and_vlan =
     Element ''config'' [] None None
       [Element ''network'' [] None None
          [Element ''interface'' [] None None
             [Element ''entry'' [(''name'', ''eth1'')] None None []],
           Element ''vlan'' [] None None []]]"

text \<open>
  A stand-in for \<open>set_cli\<close> at concrete inputs: \<open>None\<close> for the configuration \<open><config/>\<close>,
  whose root has no children, and one command for any other configuration.
\<close>

definition set_cli_of_empty_root :: "string \<Rightarrow> string list option" where
  "set_cli_of_empty_root config =
     (if config = ''<config/>'' then None
      else Some [''set deviceconfig system hostname fw''])"

text \<open>\<open><config><shared><profiles/></shared></config>\<close> and
  \<open><config><shared><profiles><custom-url-category><entry name="x"/></custom-url-category></profiles></shared></config>\<close>\<close>

definition profiles_previous :: element where
  "profiles_previous =
     Element ''config'' [] None None
       [Element ''shared'' [] None None [Element ''profiles'' [] None None []]]"

definition profiles_latest :: element where
  "profiles_latest =
     Element ''config'' [] None None
       [Element ''shared'' [] None None
          [Element ''profiles'' [] None None
             [Element ''custom-url-category'' [] None None
                [Element ''entry'' [(''name'', ''x'')] None None []]]]]"

text \<open>\<open><config><rulebase><security><rules/></security></rulebase></config>\<close> and
  \<open><config><rulebase><security><rules><entry name="r1" uuid="0a1b"><action>allow</action></entry></rules></security></rulebase></config>\<close>\<close>

definition rules_previous :: element where
  "rules_previous =
     Element ''config'' [] None None
       [Element ''rulebase'' [] None None
          [Element ''security'' [] None None [Element ''rules'' [] None None []]]]"

definition rule_entry :: element where
  "rule_entry =
     Element ''entry'' [(''name'', ''r1''), (''uuid'', ''0a1b'')] None None
       [Element ''action'' [] (Some ''allow'') None []]"

definition rules_latest :: element where
  "rules_latest =
     Element ''config'' [] None None
       [Element ''rulebase'' [] None None
          [Element ''security'' [] None None [Element ''rules'' [] None None [rule_entry]]]]"



text \<open>
  \<open><config><servers><server><ip>1.1.1.1</ip></server><server><ip>2.2.2.2</ip></server></servers></config>\<close>
  and the same document with the second address \<open>3.3.3.3\<close>.
\<close>

definition servers_previous :: element where
  "servers_previous =
     Element ''config'' [] None None
       [Element ''servers'' [] None None
          [Element ''server'' [] None None [Element ''ip'' [] (Some ''1.1.1.1'') None []],
           Element ''server'' [] None None [Element ''ip'' [] (Some ''2.2.2.2'') None []]]]"

definition servers_latest :: element where
  "servers_latest =
     Element ''config'' [] None None
       [Element ''servers'' [] None None
          [Element ''server'' [] None None [Element ''ip'' [] (Some ''1.1.1.1'') None []],
           Element ''server'' [] None None [Element ''ip'' [] (Some ''3.3.3.3'') None []]]]"

section \<open>Results on \<open>generate_set_cli_from_configs\<close>\<close>

lemma diffs_loop_Some:
  "diffs_loop (Some ps) ls diffs =
     Inr (diffs @ map cmd_cleaned
        (filter (\<lambda>cmd. cmd \<notin> set ps \<and> \<not> sublist ''set readonly'' cmd) ls))"
  by (induction ls arbitrary: diffs) simp_all

text \<open>
  C10, as amended: when both configurations yield a list of set commands, the result is
  the list of the latest configuration's commands that are not among the previous
  configuration's commands and do not contain \<open>set readonly\<close>, in the latest
  configuration's order, each with \<open>devices localhost.localdomain \<close> removed, then every
  newline replaced by a space, then \<open>vsys vsys1 \<close> removed.
\<close>

theorem generate_set_cli_from_configs_spec:
  assumes "set_cli previous_config = Some p_set"
    and "set_cli latest_config = Some l_set"
  shows "generate_set_cli_from_configs set_cli previous_config latest_config =
     Inr (map (\<lambda>cmd. replace ''vsys vsys1 '' ''''
                 (replace [CHR 0x0A] '' ''
                   (replace ''devices localhost.localdomain '' '''' cmd)))
            (filter (\<lambda>cmd. cmd \<notin> set p_set \<and> \<not> sublist ''set readonly'' cmd) l_set))"
proof -
  have "cmd_cleaned = (\<lambda>cmd. replace ''vsys vsys1 '' ''''
                 (replace [CHR 0x0A] '' ''
                   (replace ''devices localhost.localdomain '' '''' cmd)))"
    by (rule ext) (simp add: cmd_cleaned_def)
  then show ?thesis
    using assms by (simp add: generate_set_cli_from_configs_def diffs_loop_Some)
qed

theorem generate_set_cli_from_configs_spec_witness:
  "generate_set_cli_from_configs
     (\<lambda>c. if c = ''P'' then Some [''set a b'']
          else Some [''set a b'', ''set readonly x'',
                     ''set devices localhost.localdomain vsys vsys1 zone z'',
                     CHR ''s'' # CHR 0x0A # ''t''])
     ''P'' ''L'' = Inr [''set zone z'', ''s t'']"
  using generate_set_cli_from_configs_spec
    [of "\<lambda>c. if c = ''P'' then Some [''set a b'']
          else Some [''set a b'', ''set readonly x'',
                     ''set devices localhost.localdomain vsys vsys1 zone z'',
                     CHR ''s'' # CHR 0x0A # ''t'']"
        "''P''" "[''set a b'']" "''L''"
        "[''set a b'', ''set readonly x'',
          ''set devices localhost.localdomain vsys vsys1 zone z'',
          CHR ''s'' # CHR 0x0A # ''t'']"]
  by (simp add: sublist_code)

section \<open>Evaluation of xpaths\<close>

lemma select_path_append: "select_path ctx (p @ q) = select_path (select_path ctx p) q"
  by (induction p arbitrary: ctx) simp_all

lemma xpath_Inr: "xpath doc p = Inr r \<longleftrightarrow> list_all valid_step p \<and> r = select_path [doc] p"
  by (auto simp: xpath_def)

section \<open>Invariants of the tree walk\<close>


text \<open>
  Every xpath that a call adds extends the xpath of the call, and every xpath strictly
  between the two is found in the previous document.
\<close>

lemma check_paths_below:
  "check_element dt el xp pc nf = Inr r \<Longrightarrow> q \<in> set r \<Longrightarrow>
     q \<in> set nf \<or> (prefix xp q \<and> (\<forall>p'. prefix xp p' \<and> strict_prefix p' q \<longrightarrow> found pc p'))"
  "check_children dt il i es xp pc nf = Inr r \<Longrightarrow> q \<in> set r \<Longrightarrow>
     q \<in> set nf \<or> (strict_prefix xp q \<and> (\<forall>p'. strict_prefix xp p' \<and> strict_prefix p' q \<longrightarrow> found pc p'))"
proof (induction dt el xp pc nf and dt il i es xp pc nf arbitrary: r and r
    rule: check_element_check_children.induct)
  case (1 dt t a tx ta ch xp pc nf)
  show ?case
  proof (cases "xpath pc xp")
    case (Inl e)
    with 1 show ?thesis by simp
  next
    case (Inr fe)
    show ?thesis
    proof (cases fe)
      case Nil
      with 1 Inr show ?thesis by auto
    next
      case (Cons f fs)
      show ?thesis
      proof (cases "ch = [] \<or> (check_children_are_list ch \<and> dt f (Element t a tx ta ch) = 0)")
        case True
        with 1 Inr Cons show ?thesis by (auto split: if_splits)
      next
        case False
        with 1(2) Inr Cons have c: "check_children dt (check_children_are_list ch) 1 ch xp pc nf = Inr r"
          by (auto split: if_splits)
        have fx: "found pc xp" using Inr Cons by (simp add: found_def)
        from 1(1)[OF Inr Cons _ _ c 1(3)] False
        have "q \<in> set nf \<or> (strict_prefix xp q \<and> (\<forall>p'. strict_prefix xp p' \<and> strict_prefix p' q \<longrightarrow> found pc p'))"
          by auto
        then show ?thesis using fx by (auto simp: strict_prefix_def)
      qed
    qed
  qed
next
  case (2 dt il i xp pc nf)
  then show ?case by simp
next
  case (3 dt il i e es xp pc nf)
  from 3(3) obtain pe new where pe: "path_entry il i e = Inr pe"
    and new: "check_element dt e (xp @ [pe]) pc [] = Inr new"
    and rest: "check_children dt il (i + 1) es xp pc (nf @ new) = Inr r"
    by (auto split: sum.splits)
  from 3(2)[OF pe new rest 3(4)] have "q \<in> set nf \<or> q \<in> set new \<or>
     (strict_prefix xp q \<and> (\<forall>p'. strict_prefix xp p' \<and> strict_prefix p' q \<longrightarrow> found pc p'))"
    by auto
  moreover
  { assume qn: "q \<in> set new"
    from 3(1)[OF pe new qn] have a: "prefix (xp @ [pe]) q"
      and b: "\<forall>p'. prefix (xp @ [pe]) p' \<and> strict_prefix p' q \<longrightarrow> found pc p'" by auto
    have "strict_prefix xp q" using a by (auto simp: strict_prefix_def prefix_def)
    moreover have "found pc p'" if "strict_prefix xp p'" "strict_prefix p' q" for p'
    proof -
      from a obtain z where q: "q = xp @ pe # z" by (auto simp: prefix_def)
      from that(1) obtain zs where zs: "p' = xp @ zs" "zs \<noteq> []"
        by (auto simp: strict_prefix_def prefix_def)
      then obtain y ys where p': "p' = xp @ y # ys"
        by (cases zs) auto
      from that(2) q p' have "y = pe" by (auto simp: strict_prefix_def prefix_def)
      then have "prefix (xp @ [pe]) p'" using p' by (simp add: prefix_def)
      with b that show ?thesis by blast
    qed
    ultimately have "strict_prefix xp q \<and> (\<forall>p'. strict_prefix xp p' \<and> strict_prefix p' q \<longrightarrow> found pc p')"
      by blast }
  ultimately show ?case by blast
qed

section \<open>Subsumption\<close>

lemma not_found_loop_below:
  "not_found_loop dt cs pc nf = Inr r \<Longrightarrow> q \<in> set r \<Longrightarrow>
     q \<in> set nf \<or> (\<exists>c \<in> set cs. prefix [Tag (el_tag c)] q \<and>
        (\<forall>p'. prefix [Tag (el_tag c)] p' \<and> strict_prefix p' q \<longrightarrow> found pc p'))"
proof (induction cs arbitrary: nf)
  case Nil
  then show ?case by simp
next
  case (Cons c cs)
  from Cons.prems(1) obtain these where t: "check_element dt c [Tag (el_tag c)] pc [] = Inr these"
    and l: "not_found_loop dt cs pc (nf @ these) = Inr r"
    by (auto split: sum.splits)
  from Cons.IH[OF l Cons.prems(2)] check_paths_below(1)[OF t, of q]
  show ?case by auto
qed

section \<open>Containment\<close>

lemma walk_nodes_mono:
  "set ctx \<subseteq> set ctx' \<Longrightarrow> set (walk_nodes ctx p) \<subseteq> set (walk_nodes ctx' p)"
proof (induction p arbitrary: ctx ctx')
  case Nil
  then show ?case by simp
next
  case (Cons s p)
  have "set (concat (map (children_built s) ctx)) \<subseteq> set (concat (map (children_built s) ctx'))"
    using Cons.prems by auto
  from Cons.IH[OF this] show ?case by simp
qed

lemma child_built:
  assumes "j < length ch" and "path_entry (check_children_are_list ch) (1 + j) (ch ! j) = Inr pe"
    and "el_children el = ch"
  shows "ch ! j \<in> set (children_built pe el)"
proof -
  have "(1 + j, ch ! j) \<in> set (enumerate 1 ch)"
    using assms(1) by (simp add: in_set_enumerate_eq)
  then show ?thesis
    using assms(2,3) by (force simp: children_built_def)
qed

lemma check_paths_changed:
  "check_element dt el xp pc nf = Inr r \<Longrightarrow> q \<in> set r \<Longrightarrow>
     q \<in> set nf \<or> (\<exists>p e. q = xp @ p \<and> e \<in> set (walk_nodes [el] p) \<and> changed pc q e)"
  "check_children dt il i es xp pc nf = Inr r \<Longrightarrow> q \<in> set r \<Longrightarrow>
     q \<in> set nf \<or> (\<exists>j pe p e. j < length es \<and> path_entry il (i + j) (es ! j) = Inr pe \<and>
        q = xp @ pe # p \<and> e \<in> set (walk_nodes [es ! j] p) \<and> changed pc q e)"
proof (induction dt el xp pc nf and dt il i es xp pc nf arbitrary: r and r
    rule: check_element_check_children.induct)
  case (1 dt t a tx ta ch xp pc nf)
  let ?el = "Element t a tx ta ch"
  show ?case
  proof (cases "xpath pc xp")
    case (Inl e)
    with 1 show ?thesis by simp
  next
    case (Inr fe)
    show ?thesis
    proof (cases fe)
      case Nil
      with 1(2,3) Inr have "q \<in> set nf \<or> q = xp" by auto
      moreover have "changed pc xp ?el" using Inr Nil by (simp add: changed_def)
      ultimately show ?thesis by force
    next
      case (Cons f fs)
      show ?thesis
      proof (cases "ch = []")
        case True
        with 1(2,3) Inr Cons have "q \<in> set nf \<or> (q = xp \<and> el_text f \<noteq> tx)"
          by (auto split: if_splits)
        moreover have "changed pc xp ?el" if "el_text f \<noteq> tx"
          using Inr Cons True that by (simp add: changed_def)
        ultimately show ?thesis by force
      next
        case False
        show ?thesis
        proof (cases "check_children_are_list ch \<and> dt f ?el = 0")
          case True
          with 1(2,3) Inr Cons False show ?thesis by auto
        next
          case nl: False
          with 1(2) Inr Cons False
          have c: "check_children dt (check_children_are_list ch) 1 ch xp pc nf = Inr r"
            by (auto split: if_splits)
          from 1(1)[OF Inr Cons False nl c 1(3)]
          consider "q \<in> set nf" | j pe p e where "j < length ch"
            "path_entry (check_children_are_list ch) (1 + j) (ch ! j) = Inr pe"
            "q = xp @ pe # p" "e \<in> set (walk_nodes [ch ! j] p)" "changed pc q e"
            by blast
          then show ?thesis
          proof cases
            case 1
            then show ?thesis by simp
          next
            case 2
            have "ch ! j \<in> set (children_built pe ?el)"
              using child_built[OF 2(1) 2(2), of ?el] by simp
            then have "set [ch ! j] \<subseteq> set (concat (map (children_built pe) [?el]))" by simp
            from walk_nodes_mono[OF this, of p] 2(4)
            have "e \<in> set (walk_nodes [?el] (pe # p))" by auto
            with 2(3,5) show ?thesis by blast
          qed
        qed
      qed
    qed
  qed
next
  case (2 dt il i xp pc nf)
  then show ?case by simp
next
  case (3 dt il i e es xp pc nf)
  from 3(3) obtain pe new where pe: "path_entry il i e = Inr pe"
    and new: "check_element dt e (xp @ [pe]) pc [] = Inr new"
    and rest: "check_children dt il (i + 1) es xp pc (nf @ new) = Inr r"
    by (auto split: sum.splits)
  from 3(2)[OF pe new rest 3(4)]
  consider "q \<in> set nf" | "q \<in> set new" | j pe' p e' where "j < length es"
    "path_entry il (i + 1 + j) (es ! j) = Inr pe'" "q = xp @ pe' # p"
    "e' \<in> set (walk_nodes [es ! j] p)" "changed pc q e'"
    by auto
  then show ?case
  proof cases
    case 1
    then show ?thesis by simp
  next
    case 2
    from 3(1)[OF pe new 2] obtain p e' where "q = (xp @ [pe]) @ p"
      "e' \<in> set (walk_nodes [e] p)" "changed pc q e'" by auto
    then have "0 < length (e # es) \<and> path_entry il (i + 0) ((e # es) ! 0) = Inr pe \<and>
        q = xp @ pe # p \<and> e' \<in> set (walk_nodes [(e # es) ! 0] p) \<and> changed pc q e'"
      using pe by simp
    then show ?thesis by blast
  next
    case 3
    then have "Suc j < length (e # es) \<and> path_entry il (i + Suc j) ((e # es) ! Suc j) = Inr pe' \<and>
        q = xp @ pe' # p \<and> e' \<in> set (walk_nodes [(e # es) ! Suc j] p) \<and> changed pc q e'"
      by simp
    then show ?thesis by blast
  qed
qed

lemma not_found_loop_changed:
  "not_found_loop dt cs pc nf = Inr r \<Longrightarrow> q \<in> set r \<Longrightarrow>
     q \<in> set nf \<or> (\<exists>c \<in> set cs. \<exists>p e. q = Tag (el_tag c) # p \<and> e \<in> set (walk_nodes [c] p) \<and> changed pc q e)"
proof (induction cs arbitrary: nf)
  case Nil
  then show ?case by simp
next
  case (Cons c cs)
  from Cons.prems(1) obtain these where t: "check_element dt c [Tag (el_tag c)] pc [] = Inr these"
    and l: "not_found_loop dt cs pc (nf @ these) = Inr r"
    by (auto split: sum.splits)
  from Cons.IH[OF l Cons.prems(2)] check_paths_changed(1)[OF t, of q]
  show ?case by auto
qed

text \<open>
  C3, as amended: when the walk returns a change set, every xpath of the change set either
  selects nothing in the previous document, or the first node it selects there has a text
  that differs from the text of a childless element of the latest document for which the
  walk built that xpath.
\<close>

theorem reported_path_absent_or_text_differs:
  assumes "not_found_loop diff_trees (el_children latest_doc) previous_doc [] = Inr not_found_xpaths"
    and "q \<in> set not_found_xpaths"
  shows "xpath previous_doc q = Inr [] \<or>
     (\<exists>f fs e. xpath previous_doc q = Inr (f # fs) \<and> e \<in> set (visited latest_doc q) \<and>
        el_children e = [] \<and> el_text f \<noteq> el_text e)"
proof -
  from not_found_loop_changed[OF assms] obtain c p e where c: "c \<in> set (el_children latest_doc)"
    and q: "q = Tag (el_tag c) # p" and e: "e \<in> set (walk_nodes [c] p)" and ch: "changed previous_doc q e"
    by auto
  have "set [c] \<subseteq> set (filter (\<lambda>d. Tag (el_tag c) = Tag (el_tag d)) (el_children latest_doc))"
    using c by simp
  from walk_nodes_mono[OF this, of p] e q have "e \<in> set (visited latest_doc q)" by auto
  with ch show ?thesis by (auto simp: changed_def)
qed

section \<open>Identical documents\<close>

lemma path_entry_not_list: "path_entry False i e = path_entry False j e"
  by (simp add: path_entry_def)

lemma check_identical:
  "(\<And>a. dt a a = 0) \<Longrightarrow> list_all valid_step xp \<Longrightarrow> first_is el (select_path [pc] xp) \<Longrightarrow>
     addressable el \<Longrightarrow> check_element dt el xp pc nf = Inr nf"
  "(\<And>a. dt a a = 0) \<Longrightarrow> list_all valid_step xp \<Longrightarrow>
     (\<exists>par others. select_path [pc] xp = par # others \<and> el_children par = sib) \<Longrightarrow> \<not> il \<Longrightarrow>
     list_all (\<lambda>e. self_addressed sib e \<and> addressable e) es \<Longrightarrow>
     check_children dt il i es xp pc nf = Inr nf"
proof (induction dt el xp pc nf and dt il i es xp pc nf arbitrary: and sib
    rule: check_element_check_children.induct)
  case (1 dt t a tx ta ch xp pc nf)
  let ?el = "Element t a tx ta ch"
  from 1(4) obtain others where sp: "select_path [pc] xp = ?el # others"
    by (auto simp: first_is_def split: list.splits)
  with 1(3) have x: "xpath pc xp = Inr (?el # others)" by (simp add: xpath_Inr)
  show ?case
  proof (cases "ch = [] \<or> check_children_are_list ch")
    case True
    then show ?thesis using x 1(2) by auto
  next
    case False
    with 1(5) have la: "list_all (\<lambda>e. self_addressed ch e \<and> addressable e) ch" by simp
    have "check_children dt (check_children_are_list ch) 1 ch xp pc nf = Inr nf"
      using 1(1)[OF x refl _ _ 1(2) 1(3) _ _ la] False sp by auto
    then show ?thesis using x False by simp
  qed
next
  case (2 dt il i xp pc nf)
  then show ?case by simp
next
  case (3 dt il i e es xp pc nf)
  from 3(5) obtain par others where sp: "select_path [pc] xp = par # others" "el_children par = sib"
    by blast
  from 3(7) have sa: "self_addressed sib e" and ad: "addressable e"
    and la: "list_all (\<lambda>e. self_addressed sib e \<and> addressable e) es" by auto
  from sa obtain pe where pe1: "path_entry False 1 e = Inr pe" and v: "valid_step pe"
    and f: "first_is e (select_step pe sib)"
    by (auto simp: self_addressed_def split: sum.splits)
  from pe1 3(6) have pe: "path_entry il i e = Inr pe"
    using path_entry_not_list[of i e 1] by simp
  have v': "list_all valid_step (xp @ [pe])" using 3(4) v by simp
  have "first_is e (select_path [pc] (xp @ [pe]))"
    using f sp by (auto simp: select_path_append first_is_def split: list.splits)
  from 3(1)[OF pe 3(3) v' this ad] have c: "check_element dt e (xp @ [pe]) pc [] = Inr []" .
  from 3(2)[OF pe c 3(3) 3(4) 3(5) 3(6) la]
  show ?case using pe c by simp
qed

lemma not_found_loop_identical:
  assumes "\<And>a. dt a a = 0"
    and "list_all (\<lambda>c. first_is c (filter (\<lambda>d. el_tag d = el_tag c) (el_children doc)) \<and> addressable c) cs"
  shows "not_found_loop dt cs doc nf = Inr nf"
  using assms(2)
proof (induction cs)
  case Nil
  then show ?case by simp
next
  case (Cons c cs)
  then have f: "first_is c (select_path [doc] [Tag (el_tag c)])" and a: "addressable c" by auto
  have "check_element dt c [Tag (el_tag c)] doc [] = Inr []"
    by (rule check_identical(1)[OF assms(1) _ f a]) simp
  with Cons show ?case by simp
qed

lemma order_snippets_Nil: "order_snippets [] = []"
  by (simp add: order_snippets_def xpaths_def post_xpaths_def filter_snippets_by_xpath_def)

text \<open>
  C1, as amended: for a plain and addressable document, and a tree diff that reports no
  edit action between two equal trees, the pipeline applied to the document as both the
  previous and the latest one returns the empty snippet list.
\<close>

theorem identical_documents_give_no_snippet:
  assumes "\<And>a. diff_trees a a = 0"
    and "plain_doc doc"
    and "addressable_doc doc"
  shows "generate_skillet_from_configs diff_trees random_int doc doc = Inr []"
  using not_found_loop_identical[of diff_trees doc "el_children doc" "[]"] assms
  by (simp add: generate_skillet_from_configs_def addressable_doc_def order_snippets_Nil)

section \<open>The list short-circuit\<close>

lemma tag_names_loop_same:
  "\<forall>c \<in> set cs. el_tag c = t0 \<Longrightarrow> found_tag_name = [] \<or> found_tag_name = t0 \<Longrightarrow>
     tag_names_loop found_tag_name cs"
  by (induction cs arbitrary: found_tag_name) auto

lemma check_children_are_list_same:
  "2 \<le> length cs \<Longrightarrow> \<forall>c \<in> set cs. el_tag c = t0 \<Longrightarrow> check_children_are_list cs"
  using tag_names_loop_same[of cs t0 "[]"] by (simp add: check_children_are_list_def)

text \<open>
  C6: when the xpath of an element is found in the previous document, the element has two
  or more children, all of one tag, and the tree diff reports no edit action between the
  found node and the element, the comparator returns the change set it was given: it adds
  no xpath for the element or for anything below it.
\<close>

theorem unchanged_list_adds_nothing:
  assumes "xpath pc xp = Inr (found_element # others)"
    and "2 \<le> length (el_children el)"
    and "\<forall>c \<in> set (el_children el). el_tag c = t0"
    and "diff_trees found_element el = 0"
  shows "check_element diff_trees el xp pc not_founds = Inr not_founds"
proof (cases el)
  case (Element t a tx ta ch)
  with assms(2,3) have l: "check_children_are_list ch" and ne: "ch \<noteq> []"
    using check_children_are_list_same[of ch t0] by auto
  show ?thesis using assms(1,4) l ne Element by simp
qed

section \<open>Snippet assembly\<close>








section \<open>The pipeline at concrete documents\<close>

lemma two_servers_result:
  "generate_skillet_from_configs equal_trees_diff draw_seven two_servers two_servers =
     Inr [\<lparr>snippet_name = ''server-7'', snippet_xpath = ''/config/system'',
           snippet_element = ''<server>10.0.0.1</server>'',
           snippet_full_xpath = ''./system/server''\<rparr>]"
  by code_simp

text \<open>
  C1 fails as stated: a document with two \<open>server\<close> siblings of different text beside a
  \<open>hostname\<close>, given as both the previous and the latest document, yields one snippet. The
  xpath \<open>./system/server\<close> built for the second \<open>server\<close> selects the first one in the
  previous document, whose text differs. No list of identical tags is met, so that the
  stand-in for the tree diff plays no part.
\<close>

theorem identical_documents_counterexample:
  "generate_skillet_from_configs equal_trees_diff draw_seven two_servers two_servers =
     Inr [\<lparr>snippet_name = ''server-7'', snippet_xpath = ''/config/system'',
           snippet_element = ''<server>10.0.0.1</server>'',
           snippet_full_xpath = ''./system/server''\<rparr>]
   \<and> generate_skillet_from_configs equal_trees_diff draw_seven two_servers two_servers \<noteq> Inr []"
  by (simp add: two_servers_result)

lemma equal_trees_diff_same: "equal_trees_diff a a = 0"
  by (simp add: equal_trees_diff_def)

lemma device_config_plain: "plain_doc device_config"
  by code_simp

lemma device_config_addressable: "addressable_doc device_config"
  by code_simp

text \<open>
  The amended C1 at a document that holds a list of three \<open>entry\<close> siblings, an entry
  addressed by its name and two fields addressed by their tags.
\<close>

theorem identical_documents_give_no_snippet_witness:
  "(\<forall>a. equal_trees_diff a a = 0) \<and> plain_doc device_config \<and> addressable_doc device_config \<and>
   generate_skillet_from_configs equal_trees_diff draw_seven device_config device_config = Inr []"
  using identical_documents_give_no_snippet
    [of equal_trees_diff device_config draw_seven,
      OF equal_trees_diff_same device_config_plain device_config_addressable]
  by (simp add: equal_trees_diff_same device_config_plain device_config_addressable)

lemma scenario_a_walk:
  "not_found_loop diff_trees (el_children scenario_a_latest) scenario_a_previous [] =
     Inr [[Tag ''network'', Tag ''interface'']]"
  by (simp add: scenario_a_previous_def scenario_a_latest_def xpath_def
      check_children_are_list_def path_entry_def)

lemma scenario_a_str: "xpath_str [Tag ''network'', Tag ''interface''] = ''./network/interface''"
  by (simp add: xpath_str_def)

lemma scenario_a_split: "split_xpath ''./network/interface'' = (''./network'', ''interface'')"
  by (simp add: split_xpath_def)

lemma scenario_a_assembly:
  "snippets_loop random_int scenario_a_latest [[Tag ''network'', Tag ''interface'']] [] =
     Inr [\<lparr>snippet_name = ''interface-'' @ str_nat (random_int 0),
           snippet_xpath = ''/config/network'',
           snippet_element =
             ''<interface><entry name='' @ [CHR 0x22] @ ''eth1'' @ [CHR 0x22] @ ''/></interface>'',
           snippet_full_xpath = ''./network/interface''\<rparr>]"
  by (simp add: scenario_a_str scenario_a_split scenario_a_latest_def xpath_def
      sub_dot_config_def sub_config_dot_def ignored_xpaths_def strip_def isspace_def
      attr_markup_def opt_text_def)

lemma order_one_network:
  "snippet_full_xpath s = ''./network/interface'' \<Longrightarrow> order_snippets [s] = [s]"
  by (simp add: order_snippets_def xpaths_def post_xpaths_def filter_snippets_by_xpath_def
      sublist_code)

text \<open>
  C2, as amended: for the two documents of the scenario, whatever the tree diff and the
  random draws, the pipeline returns exactly one snippet; its container path is
  \<open>/config/network\<close>, its full path is \<open>./network/interface\<close> and its element is the
  serialised \<open>interface\<close> element, which holds the entry.
\<close>

theorem scenario_a_result:
  "generate_skillet_from_configs diff_trees random_int scenario_a_previous scenario_a_latest =
     Inr [\<lparr>snippet_name = ''interface-'' @ str_nat (random_int 0),
           snippet_xpath = ''/config/network'',
           snippet_element =
             ''<interface><entry name='' @ [CHR 0x22] @ ''eth1'' @ [CHR 0x22] @ ''/></interface>'',
           snippet_full_xpath = ''./network/interface''\<rparr>]"
  unfolding generate_skillet_from_configs_def scenario_a_walk sum.case scenario_a_assembly
  by (simp add: order_one_network)

lemma scenario_a_stand_ins:
  "generate_skillet_from_configs equal_trees_diff draw_seven scenario_a_previous scenario_a_latest =
     Inr [\<lparr>snippet_name = ''interface-7'',
           snippet_xpath = ''/config/network'',
           snippet_element =
             ''<interface><entry name='' @ [CHR 0x22] @ ''eth1'' @ [CHR 0x22] @ ''/></interface>'',
           snippet_full_xpath = ''./network/interface''\<rparr>]"
  by code_simp

text \<open>
  C2 fails as stated: the one snippet of the scenario has the container path
  \<open>/config/network\<close>, which does not end in \<open>/network/interface\<close>, and its element is
  the whole \<open>interface\<close> element, not the entry alone. The walk stops at \<open>interface\<close>,
  the first element that the previous document lacks.
\<close>

theorem scenario_a_counterexample:
  "generate_skillet_from_configs equal_trees_diff draw_seven scenario_a_previous scenario_a_latest =
     Inr [\<lparr>snippet_name = ''interface-7'',
           snippet_xpath = ''/config/network'',
           snippet_element =
             ''<interface><entry name='' @ [CHR 0x22] @ ''eth1'' @ [CHR 0x22] @ ''/></interface>'',
           snippet_full_xpath = ''./network/interface''\<rparr>]
   \<and> \<not> suffix ''/network/interface'' ''/config/network''
   \<and> ''<interface><entry name='' @ [CHR 0x22] @ ''eth1'' @ [CHR 0x22] @ ''/></interface>''
       \<noteq> ''<entry name='' @ [CHR 0x22] @ ''eth1'' @ [CHR 0x22] @ ''/>''"
  by (simp add: scenario_a_stand_ins suffix_to_prefix)

lemma two_servers_walk:
  "not_found_loop equal_trees_diff (el_children two_servers) one_server [] =
     Inr [[Tag ''system'', Tag ''server'']]"
  by code_simp

lemma one_server_selected:
  "xpath one_server [Tag ''system'', Tag ''server''] =
     Inr [Element ''server'' [] (Some ''10.0.0.1'') None []]"
  by code_simp

lemma two_servers_selected:
  "xpath two_servers [Tag ''system'', Tag ''server''] =
     Inr [Element ''server'' [] (Some ''10.0.0.1'') None [],
          Element ''server'' [] (Some ''10.0.0.2'') None []]"
  by code_simp

text \<open>
  C3 fails as stated: with two \<open>server\<close> siblings in the latest document and the first of
  them alone in the previous one, the change set holds \<open>./system/server\<close>; the node this
  xpath gives in the previous document and the first node it gives in the latest document
  have the same text.
\<close>

theorem reported_path_counterexample:
  "not_found_loop equal_trees_diff (el_children two_servers) one_server [] =
     Inr [[Tag ''system'', Tag ''server'']]
   \<and> xpath one_server [Tag ''system'', Tag ''server''] =
     Inr [Element ''server'' [] (Some ''10.0.0.1'') None []]
   \<and> xpath two_servers [Tag ''system'', Tag ''server''] =
     Inr [Element ''server'' [] (Some ''10.0.0.1'') None [],
          Element ''server'' [] (Some ''10.0.0.2'') None []]"
  by (simp only: two_servers_walk one_server_selected two_servers_selected simp_thms)

lemma scenario_c_walk:
  "not_found_loop equal_trees_diff (el_children scenario_c_latest) scenario_c_previous [] =
     Inr [[Tag ''service'', TagAttrs ''entry'' [(''name'', ''x'')], Tag ''port'']]"
  by code_simp

text \<open>The amended C3 at the port change of scenario C.\<close>

theorem reported_path_absent_or_text_differs_witness:
  "not_found_loop equal_trees_diff (el_children scenario_c_latest) scenario_c_previous [] =
     Inr [[Tag ''service'', TagAttrs ''entry'' [(''name'', ''x'')], Tag ''port'']]
   \<and> (xpath scenario_c_previous [Tag ''service'', TagAttrs ''entry'' [(''name'', ''x'')], Tag ''port'']
        = Inr []
      \<or> (\<exists>f fs e.
           xpath scenario_c_previous
             [Tag ''service'', TagAttrs ''entry'' [(''name'', ''x'')], Tag ''port''] = Inr (f # fs)
           \<and> e \<in> set (visited scenario_c_latest
                 [Tag ''service'', TagAttrs ''entry'' [(''name'', ''x'')], Tag ''port''])
           \<and> el_children e = [] \<and> el_text f \<noteq> el_text e))"
  using reported_path_absent_or_text_differs [OF scenario_c_walk,
      of "[Tag ''service'', TagAttrs ''entry'' [(''name'', ''x'')], Tag ''port'']"]
    scenario_c_walk
  by simp

lemma nested_server_walk:
  "not_found_loop equal_trees_diff (el_children nested_server) other_server [] =
     Inr [[Tag ''system'', Tag ''server''], [Tag ''system'', Tag ''server'', Tag ''ip'']]"
  by code_simp

text \<open>
  C4 fails as stated: of two \<open>server\<close> siblings with one xpath, the first has a changed
  text, so that the xpath is added, and the walk descends into the second, whose child
  \<open>ip\<close> is absent from the previous document: the change set holds an xpath and a strict
  descendant of it.
\<close>

theorem descendant_counterexample:
  "not_found_loop equal_trees_diff (el_children nested_server) other_server [] =
     Inr [[Tag ''system'', Tag ''server''], [Tag ''system'', Tag ''server'', Tag ''ip'']]
   \<and> strict_prefix [Tag ''system'', Tag ''server''] [Tag ''system'', Tag ''server'', Tag ''ip'']"
  by (simp add: nested_server_walk)

text \<open>
  C5 at a new shared custom URL category: the full path of the one snippet holds both the
  prefix \<open>/shared/profiles\<close> and the prefix \<open>/profiles/custom-url-category\<close>, and the
  ordered result holds the snippet twice. The loop over the priority prefixes appends
  the matches of every prefix without the membership test that the two later loops make.
\<close>

theorem overlapping_prefixes_duplicate:
  "generate_skillet_from_configs equal_trees_diff draw_seven profiles_previous profiles_latest =
     Inr [\<lparr>snippet_name = ''custom-url-category-7'',
           snippet_xpath = ''/config/shared/profiles'',
           snippet_element =
             ''<custom-url-category><entry name='' @ [CHR 0x22] @ ''x'' @ [CHR 0x22]
               @ ''/></custom-url-category>'',
           snippet_full_xpath = ''./shared/profiles/custom-url-category''\<rparr>,
          \<lparr>snippet_name = ''custom-url-category-7'',
           snippet_xpath = ''/config/shared/profiles'',
           snippet_element =
             ''<custom-url-category><entry name='' @ [CHR 0x22] @ ''x'' @ [CHR 0x22]
               @ ''/></custom-url-category>'',
           snippet_full_xpath = ''./shared/profiles/custom-url-category''\<rparr>]"
  by code_simp

lemma address_found:
  "xpath scenario_b [Tag ''address''] = Inr [scenario_b_address]"
  by code_simp

lemma address_children:
  "map el_tag (el_children scenario_b_address) = [''entry'', ''entry'', ''entry'']"
  by code_simp

lemma scenario_b_result:
  "generate_skillet_from_configs equal_trees_diff draw_seven scenario_b scenario_b = Inr []"
  by code_simp

text \<open>
  C6 at the unchanged list of three \<open>entry\<close> siblings of scenario B, alone and as a
  whole document.
\<close>

theorem unchanged_list_adds_nothing_witness:
  "xpath scenario_b [Tag ''address''] = Inr [scenario_b_address]
   \<and> map el_tag (el_children scenario_b_address) = [''entry'', ''entry'', ''entry'']
   \<and> equal_trees_diff scenario_b_address scenario_b_address = 0
   \<and> check_element equal_trees_diff scenario_b_address [Tag ''address''] scenario_b [] = Inr []
   \<and> generate_skillet_from_configs equal_trees_diff draw_seven scenario_b scenario_b = Inr []"
proof -
  have l: "2 \<le> length (el_children scenario_b_address)"
    using arg_cong[OF address_children, of length] by simp
  have t: "\<forall>c \<in> set (el_children scenario_b_address). el_tag c = ''entry''"
    using arg_cong[OF address_children, of set] by auto
  have d: "equal_trees_diff scenario_b_address scenario_b_address = 0"
    by (simp add: equal_trees_diff_def)
  have "check_element equal_trees_diff scenario_b_address [Tag ''address''] scenario_b [] = Inr []"
    by (rule unchanged_list_adds_nothing
        [of scenario_b "[Tag ''address'']" scenario_b_address "[]" scenario_b_address
          "''entry''" equal_trees_diff "[]"])
      (simp_all add: address_found l t d)
  with address_found address_children d scenario_b_result show ?thesis by simp
qed

text \<open>
  C7 at a new security rule that carries a \<open>uuid\<close>: the element of the snippet still
  holds the attribute, since \<open>generate_skillet_from_configs\<close> serialises the selected
  node as it is. \<open>__clean_uuid\<close> itself leaves the attribute on the node it is given and
  returns \<open>None\<close> for \<open>None\<close>.
\<close>

theorem snippet_keeps_uuid:
  "generate_skillet_from_configs equal_trees_diff draw_seven rules_previous rules_latest =
     Inr [\<lparr>snippet_name = ''entry-7'',
           snippet_xpath = ''/config/rulebase/security/rules'',
           snippet_element =
             ''<entry name='' @ [CHR 0x22] @ ''r1'' @ [CHR 0x22] @ '' uuid='' @ [CHR 0x22]
               @ ''0a1b'' @ [CHR 0x22] @ ''><action>allow</action></entry>'',
           snippet_full_xpath =
             ''./rulebase/security/rules/entry[@name='' @ [CHR 0x22] @ ''r1'' @ [CHR 0x22] @ '']''\<rparr>]
   \<and> clean_uuid (Some rule_entry) = Some rule_entry
   \<and> clean_uuid None = None"
  by code_simp





text \<open>
  C9: in a list with differences, the segment of a child without attributes and without
  text is not built: \<open>e.text.strip()\<close> raises \<open>AttributeError\<close>. So does the pipeline
  for two \<open>server\<close> siblings that hold only an \<open>ip\<close> element each, when one address
  changes.
\<close>

theorem absent_text_raises:
  "path_entry True index (Element t [] None ta ch) = Inl AttributeError
   \<and> generate_skillet_from_configs equal_trees_diff draw_seven servers_previous servers_latest
       = Inl AttributeError"
proof -
  have "generate_skillet_from_configs equal_trees_diff draw_seven servers_previous servers_latest
       = Inl AttributeError"
    by code_simp
  then show ?thesis by (simp add: path_entry_def)
qed

section \<open>Reading an xpath string back\<close>

lemma not_name_char:
  "\<not> name_char (CHR ''/'')" "\<not> name_char (CHR ''['')" "\<not> name_char (CHR ''='')"
  by (simp_all add: name_char_def)

lemma name_split:
  assumes "list_all name_char t" and "list_all name_char t'"
    and "X = [] \<or> \<not> name_char (hd X)" and "Y = [] \<or> \<not> name_char (hd Y)"
    and "t @ X = t' @ Y"
  shows "t = t' \<and> X = Y"
proof -
  have "takeWhile name_char (t @ X) = t"
    using assms(1,3) by (auto simp: list_all_iff takeWhile_eq_Nil_iff)
  moreover have "takeWhile name_char (t' @ Y) = t'"
    using assms(2,4) by (auto simp: list_all_iff takeWhile_eq_Nil_iff)
  ultimately have "t = t'" using assms(5) by simp
  with assms(5) show ?thesis by simp
qed

lemma nat_of_digits_snoc:
  "nat_of_digits (ds @ [c]) = 10 * nat_of_digits ds + (of_char c - 48)"
  by (simp add: nat_of_digits_def)

lemma nat_of_digits_str_nat: "nat_of_digits (str_nat n) = n"
proof (induction n rule: str_nat.induct)
  case (1 n)
  show ?case
  proof (cases "n < 10")
    case True
    then show ?thesis
      by (subst str_nat.simps) (simp add: nat_of_digits_def digit_char_def)
  next
    case False
    have "n mod 10 < 10" by simp
    then have "(of_char (digit_char (n mod 10)) :: nat) - 48 = n mod 10"
      by (simp add: digit_char_def)
    with 1[OF False] False show ?thesis
      by (subst str_nat.simps) (simp add: nat_of_digits_snoc)
  qed
qed

lemma str_nat_inj: "str_nat m = str_nat n \<Longrightarrow> m = n"
  by (metis nat_of_digits_str_nat)

lemma digit_char_digit: "d < 10 \<Longrightarrow> is_digit (digit_char d)"
  by (simp add: is_digit_def digit_char_def)

lemma str_nat_digits: "str_nat n \<noteq> [] \<and> list_all is_digit (str_nat n)"
proof (induction n rule: str_nat.induct)
  case (1 n)
  show ?case
  proof (cases "n < 10")
    case True
    then show ?thesis
      by (subst (1 2) str_nat.simps) (simp add: digit_char_digit)
  next
    case False
    have "is_digit (digit_char (n mod 10))" by (simp add: digit_char_digit)
    with 1[OF False] False show ?thesis
      by (subst (1 2) str_nat.simps) simp
  qed
qed

lemma not_is_digit:
  "\<not> is_digit (CHR '']'')" "\<not> is_digit (CHR ''@'')" "\<not> is_digit (CHR ''t'')"
  by (simp_all add: is_digit_def)

lemma str_nat_no_bracket: "CHR '']'' \<notin> set (str_nat n)"
  using str_nat_digits[of n] not_is_digit(1) by (auto simp: list_all_iff)

lemma str_nat_hd: "is_digit (hd (str_nat n))"
  using str_nat_digits[of n] by (cases "str_nat n") auto

lemma split_at_first:
  assumes "x \<notin> set xs" and "x \<notin> set xs'" and "xs @ x # ys = xs' @ x # ys'"
  shows "xs = xs' \<and> ys = ys'"
  using assms
proof (induction xs arbitrary: xs')
  case Nil
  then show ?case by (cases xs') auto
next
  case (Cons a xs)
  then show ?case by (cases xs') auto
qed

lemma join_Cons: "join sep (p # ps) = p @ (if ps = [] then [] else sep @ join sep ps)"
  by (cases ps) simp_all

lemma attr_pred_parse:
  assumes "plain_attr kv" and "plain_attr kv'"
    and "attr_pred kv @ T = attr_pred kv' @ T'"
  shows "kv = kv' \<and> T = T'"
proof -
  obtain k v where kv: "kv = (k, v)" by (cases kv)
  obtain k' v' where kv': "kv' = (k', v')" by (cases kv')
  have ne: "\<forall>c \<in> set k. c \<noteq> CHR ''=''" "\<forall>c \<in> set k'. c \<noteq> CHR ''=''"
    using assms(1,2) kv kv' not_name_char(3)
    by (auto simp: plain_attr_def xml_name_def list_all_iff)
  then have k: "CHR ''='' \<notin> set k" "CHR ''='' \<notin> set k'" by blast+
  have v: "CHR 0x22 \<notin> set v" "CHR 0x22 \<notin> set v'"
    using assms(1,2) kv kv' by (simp_all add: plain_attr_def quote_free_def)
  from assms(3) kv kv'
  have eq: "k @ CHR ''='' # (CHR 0x22 # v @ CHR 0x22 # T) = k' @ CHR ''='' # (CHR 0x22 # v' @ CHR 0x22 # T')"
    by (simp add: attr_pred_def)
  from split_at_first[OF k eq]
  have kk: "k = k'" and e2: "v @ CHR 0x22 # T = v' @ CHR 0x22 # T'" by simp_all
  from split_at_first[OF v e2] kk kv kv' show ?thesis by simp
qed

lemma attr_pred_hd: "attr_pred kv @ T = CHR ''@'' # tl (attr_pred kv @ T)"
  by (simp add: attr_pred_def)

lemma attrs_parse:
  assumes "list_all plain_attr kvs" and "list_all plain_attr kvs'"
    and "join '' '' (map attr_pred kvs) @ CHR '']'' # X = join '' '' (map attr_pred kvs') @ CHR '']'' # Y"
  shows "kvs = kvs' \<and> X = Y"
  using assms
proof (induction kvs arbitrary: kvs')
  case Nil
  show ?case
  proof (cases kvs')
    case Nil
    with Nil.prems show ?thesis by simp
  next
    case (Cons kv' r')
    with Nil.prems(3) show ?thesis by (simp add: join_Cons attr_pred_def)
  qed
next
  case (Cons kv r)
  show ?case
  proof (cases kvs')
    case Nil
    with Cons.prems(3) show ?thesis by (simp add: join_Cons attr_pred_def)
  next
    case c: (Cons kv' r')
    let ?T = "(if r = [] then [] else '' '' @ join '' '' (map attr_pred r)) @ CHR '']'' # X"
    let ?T' = "(if r' = [] then [] else '' '' @ join '' '' (map attr_pred r')) @ CHR '']'' # Y"
    from Cons.prems(3) c have "attr_pred kv @ ?T = attr_pred kv' @ ?T'"
      by (simp add: join_Cons)
    from attr_pred_parse[OF _ _ this] Cons.prems(1,2) c
    have kv: "kv = kv'" and T: "?T = ?T'" by auto
    show ?thesis
    proof (cases "r = []")
      case True
      with T have "r' = []" by (auto split: if_splits)
      with True T kv c show ?thesis by simp
    next
      case False
      with T have r': "r' \<noteq> []" by (auto split: if_splits)
      with False T have "join '' '' (map attr_pred r) @ CHR '']'' # X
          = join '' '' (map attr_pred r') @ CHR '']'' # Y" by simp
      from Cons.IH[OF _ _ this] Cons.prems(1,2) c have "r = r'" "X = Y" by auto
      with kv c show ?thesis by simp
    qed
  qed
qed

lemma step_str_parts: "step_str s = step_tag s @ step_body s"
  by (cases s) simp_all

lemma step_body_hd: "step_body s = [] \<or> hd (step_body s) = CHR ''[''"
  by (cases s) simp_all

lemma plain_step_tag: "plain_step s \<Longrightarrow> list_all name_char (step_tag s)"
  by (cases s) (simp_all add: xml_name_def)

lemma attrs_hd:
  "hd (join '' '' (map attr_pred kvs) @ CHR '']'' # X) = CHR ''@'' \<or>
   hd (join '' '' (map attr_pred kvs) @ CHR '']'' # X) = CHR '']''"
  by (cases kvs) (simp_all add: join_Cons attr_pred_def)

lemma step_body_parse:
  assumes "plain_step a" and "plain_step b" and "step_tag a = step_tag b"
    and "X = [] \<or> hd X = CHR ''/''" and "Y = [] \<or> hd Y = CHR ''/''"
    and "step_body a @ X = step_body b @ Y"
  shows "a = b \<and> X = Y"
proof (cases a)
  case (Tag t)
  with assms show ?thesis by (cases b) auto
next
  case a: (TagAttrs t kvs)
  show ?thesis
  proof (cases b)
    case (Tag t')
    with assms a show ?thesis by auto
  next
    case (TagAttrs t' kvs')
    with assms(6) a have "join '' '' (map attr_pred kvs) @ CHR '']'' # X
        = join '' '' (map attr_pred kvs') @ CHR '']'' # Y" by simp
    from attrs_parse[OF _ _ this] assms(1,2,3) a TagAttrs show ?thesis by simp
  next
    case (TagText t' s')
    with assms(6) a have "join '' '' (map attr_pred kvs) @ CHR '']'' # X
        = CHR ''t'' # ''ext()='' @ CHR 0x22 # s' @ CHR 0x22 # CHR '']'' # Y" by simp
    with attrs_hd[of kvs X] show ?thesis by simp
  next
    case (TagIndex t' n')
    with assms(6) a have e: "join '' '' (map attr_pred kvs) @ CHR '']'' # X
        = str_nat n' @ CHR '']'' # Y" by simp
    have "hd (str_nat n' @ CHR '']'' # Y) = hd (str_nat n')"
      using str_nat_digits[of n'] by simp
    with e attrs_hd[of kvs X] str_nat_hd[of n'] not_is_digit show ?thesis by auto
  qed
next
  case a: (TagText t s)
  show ?thesis
  proof (cases b)
    case (Tag t')
    with assms a show ?thesis by auto
  next
    case (TagAttrs t' kvs')
    with assms(6) a have "join '' '' (map attr_pred kvs') @ CHR '']'' # Y
        = CHR ''t'' # ''ext()='' @ CHR 0x22 # s @ CHR 0x22 # CHR '']'' # X" by simp
    with attrs_hd[of kvs' Y] show ?thesis by simp
  next
    case (TagText t' s')
    with assms(6) a have "s @ CHR 0x22 # (CHR '']'' # X) = s' @ CHR 0x22 # (CHR '']'' # Y)" by simp
    moreover have "CHR 0x22 \<notin> set s" "CHR 0x22 \<notin> set s'"
      using assms(1,2) a TagText by (simp_all add: quote_free_def)
    ultimately have "s = s' \<and> CHR '']'' # X = CHR '']'' # Y"
      by (rule split_at_first[rotated 2])
    then have "s = s'" "X = Y" by simp_all
    with assms(3) a TagText show ?thesis by simp
  next
    case (TagIndex t' n')
    with assms(6) a have e: "str_nat n' @ CHR '']'' # Y
        = CHR ''t'' # ''ext()='' @ CHR 0x22 # s @ CHR 0x22 # CHR '']'' # X" by simp
    have "hd (str_nat n' @ CHR '']'' # Y) = hd (str_nat n')"
      using str_nat_digits[of n'] by simp
    with e str_nat_hd[of n'] not_is_digit show ?thesis by auto
  qed
next
  case a: (TagIndex t n)
  have hn: "hd (str_nat n @ CHR '']'' # X) = hd (str_nat n)"
    using str_nat_digits[of n] by simp
  show ?thesis
  proof (cases b)
    case (Tag t')
    with assms a show ?thesis by auto
  next
    case (TagAttrs t' kvs')
    with assms(6) a have e: "join '' '' (map attr_pred kvs') @ CHR '']'' # Y
        = str_nat n @ CHR '']'' # X" by simp
    with hn attrs_hd[of kvs' Y] str_nat_hd[of n] not_is_digit show ?thesis by auto
  next
    case (TagText t' s')
    with assms(6) a have e: "str_nat n @ CHR '']'' # X
        = CHR ''t'' # ''ext()='' @ CHR 0x22 # s' @ CHR 0x22 # CHR '']'' # Y" by simp
    with hn str_nat_hd[of n] not_is_digit show ?thesis by auto
  next
    case (TagIndex t' n')
    with assms(6) a have "str_nat n @ CHR '']'' # X = str_nat n' @ CHR '']'' # Y" by simp
    from split_at_first[OF str_nat_no_bracket str_nat_no_bracket this]
    have "str_nat n = str_nat n'" "X = Y" by simp_all
    with str_nat_inj assms(3) a TagIndex show ?thesis by auto
  qed
qed

lemma step_str_parse:
  assumes "plain_step a" and "plain_step b"
    and "X = [] \<or> hd X = CHR ''/''" and "Y = [] \<or> hd Y = CHR ''/''"
    and "step_str a @ X = step_str b @ Y"
  shows "a = b \<and> X = Y"
proof -
  have x: "step_body a @ X = [] \<or> \<not> name_char (hd (step_body a @ X))"
    using step_body_hd[of a] assms(3) not_name_char by (cases "step_body a") auto
  have y: "step_body b @ Y = [] \<or> \<not> name_char (hd (step_body b @ Y))"
    using step_body_hd[of b] assms(4) not_name_char by (cases "step_body b") auto
  from assms(5) have "step_tag a @ (step_body a @ X) = step_tag b @ (step_body b @ Y)"
    by (simp add: step_str_parts)
  from name_split[OF plain_step_tag[OF assms(1)] plain_step_tag[OF assms(2)] x y this]
  have "step_tag a = step_tag b" "step_body a @ X = step_body b @ Y" by auto
  from step_body_parse[OF assms(1,2) this(1) assms(3,4) this(2)] show ?thesis .
qed

lemma segments_hd:
  "concat (map (\<lambda>s. ''/'' @ step_str s) p) = [] \<or>
   hd (concat (map (\<lambda>s. ''/'' @ step_str s) p)) = CHR ''/''"
  by (cases p) simp_all

lemma segments_parse:
  assumes "list_all plain_step p" and "list_all plain_step q"
    and "concat (map (\<lambda>s. ''/'' @ step_str s) q)
         = concat (map (\<lambda>s. ''/'' @ step_str s) p) @ ''/'' @ rest"
  shows "strict_prefix p q"
  using assms
proof (induction p arbitrary: q)
  case Nil
  then have "q \<noteq> []" by auto
  then show ?case by (auto simp: strict_prefix_def)
next
  case (Cons a p)
  from Cons.prems(3) obtain b q' where q: "q = b # q'" by (cases q) auto
  let ?X = "concat (map (\<lambda>s. ''/'' @ step_str s) q')"
  let ?Y = "concat (map (\<lambda>s. ''/'' @ step_str s) p) @ ''/'' @ rest"
  have x: "?X = [] \<or> hd ?X = CHR ''/''" by (rule segments_hd)
  have y: "?Y = [] \<or> hd ?Y = CHR ''/''"
    using segments_hd[of p] by (cases "concat (map (\<lambda>s. ''/'' @ step_str s) p)") auto
  from Cons.prems(3) q have "step_str b @ ?X = step_str a @ ?Y" by simp
  from step_str_parse[OF _ _ x y this] Cons.prems(1,2) q
  have ba: "b = a" and xy: "?X = ?Y" by auto
  from Cons.IH[OF _ _ xy] Cons.prems(1,2) q have "strict_prefix p q'" by simp
  with ba q show ?case by simp
qed

lemma descendant_str_steps:
  assumes "list_all plain_step p" and "list_all plain_step q"
    and "descendant_str (xpath_str p) (xpath_str q)"
  shows "strict_prefix p q"
  using assms(3) segments_parse[OF assms(1,2)]
  by (auto simp: descendant_str_def xpath_str_def)

section \<open>Subsumption for plain documents\<close>

lemma strip_subset: "set (strip t) \<subseteq> set t"
proof -
  have "set (dropWhile isspace (rev (dropWhile isspace t))) \<subseteq> set (rev (dropWhile isspace t))"
    by (auto dest: set_dropWhileD)
  moreover have "set (dropWhile isspace t) \<subseteq> set t" by (auto dest: set_dropWhileD)
  ultimately show ?thesis by (auto simp: strip_def)
qed

lemma path_entry_plain:
  assumes "plain_element e" and "path_entry il i e = Inr pe"
  shows "plain_step pe"
proof (cases e)
  case (Element t a tx ta ch)
  with assms(1) have t: "xml_name t" and a: "list_all plain_attr a"
    and x: "case tx of None \<Rightarrow> True | Some s \<Rightarrow> quote_free s" by simp_all
  have f: "list_all plain_attr (filter (\<lambda>kv. fst kv \<noteq> ''uuid'') a)"
    using a by (auto simp: list_all_iff)
  have q: "quote_free (strip s)" if "tx = Some s" for s
    using x that strip_subset[of s] by (auto simp: quote_free_def)
  from assms(2) Element t f q show ?thesis
    by (auto simp: path_entry_def split: if_splits option.splits)
qed

lemma check_paths_plain:
  "check_element dt el xp pc nf = Inr r \<Longrightarrow> list_all plain_step xp \<Longrightarrow> plain_element el \<Longrightarrow>
     q \<in> set r \<Longrightarrow> q \<in> set nf \<or> list_all plain_step q"
  "check_children dt il i es xp pc nf = Inr r \<Longrightarrow> list_all plain_step xp \<Longrightarrow>
     list_all plain_element es \<Longrightarrow> q \<in> set r \<Longrightarrow> q \<in> set nf \<or> list_all plain_step q"
proof (induction dt el xp pc nf and dt il i es xp pc nf arbitrary: r and r
    rule: check_element_check_children.induct)
  case (1 dt t a tx ta ch xp pc nf)
  from 1(4) have pch: "list_all plain_element ch" by simp
  show ?case
  proof (cases "xpath pc xp")
    case (Inl e)
    with 1 show ?thesis by simp
  next
    case (Inr fe)
    show ?thesis
    proof (cases fe)
      case Nil
      with 1(2,3,5) Inr show ?thesis by auto
    next
      case (Cons f fs)
      show ?thesis
      proof (cases "ch = [] \<or> (check_children_are_list ch \<and> dt f (Element t a tx ta ch) = 0)")
        case True
        with 1(2,3,5) Inr Cons show ?thesis by (auto split: if_splits)
      next
        case False
        with 1(2) Inr Cons have c: "check_children dt (check_children_are_list ch) 1 ch xp pc nf = Inr r"
          by (auto split: if_splits)
        from 1(1)[OF Inr Cons _ _ c 1(3) pch 1(5)] False show ?thesis by auto
      qed
    qed
  qed
next
  case (2 dt il i xp pc nf)
  then show ?case by simp
next
  case (3 dt il i e es xp pc nf)
  from 3(3) obtain pe new where pe: "path_entry il i e = Inr pe"
    and new: "check_element dt e (xp @ [pe]) pc [] = Inr new"
    and rest: "check_children dt il (i + 1) es xp pc (nf @ new) = Inr r"
    by (auto split: sum.splits)
  from 3(5) have e: "plain_element e" and es: "list_all plain_element es" by simp_all
  have xp': "list_all plain_step (xp @ [pe])"
    using 3(4) path_entry_plain[OF e pe] by simp
  from 3(2)[OF pe new rest 3(4) es 3(6)] 3(1)[OF pe new xp' e]
  show ?case by auto
qed

lemma not_found_loop_plain:
  "not_found_loop dt cs pc nf = Inr r \<Longrightarrow> list_all plain_element cs \<Longrightarrow> q \<in> set r \<Longrightarrow>
     q \<in> set nf \<or> list_all plain_step q"
proof (induction cs arbitrary: nf)
  case Nil
  then show ?case by simp
next
  case (Cons c cs)
  from Cons.prems(1) obtain these where t: "check_element dt c [Tag (el_tag c)] pc [] = Inr these"
    and l: "not_found_loop dt cs pc (nf @ these) = Inr r"
    by (auto split: sum.splits)
  from Cons.prems(2) have c: "plain_element c" and cs: "list_all plain_element cs" by simp_all
  have "list_all plain_step [Tag (el_tag c)]" using c by (cases c) simp
  from check_paths_plain(1)[OF t this c] Cons.IH[OF l cs Cons.prems(3)]
  show ?case by auto
qed

lemma absent_path_added:
  "xpath pc xp = Inr [] \<Longrightarrow> check_element dt el xp pc nf = Inr (nf @ [xp])"
  by (cases el) simp

text \<open>
  C4, as amended: when the walk returns a change set for a plain latest document, an xpath
  of the change set that selects nothing in the previous document has no strict descendant
  in the change set, neither as a list of segments nor as a string; and a call of the
  comparator at such an xpath, whatever the element, adds this xpath and nothing else, so
  that the walk does not descend into the children of the element.
\<close>

theorem absent_path_has_no_descendant:
  assumes "not_found_loop diff_trees (el_children latest_doc) previous_doc [] = Inr not_found_xpaths"
    and "plain_doc latest_doc"
    and "p \<in> set not_found_xpaths"
    and "xpath previous_doc p = Inr []"
    and "q \<in> set not_found_xpaths"
  shows "\<not> strict_prefix p q \<and> \<not> descendant_str (xpath_str p) (xpath_str q)
     \<and> (\<forall>el not_founds.
          check_element diff_trees el p previous_doc not_founds = Inr (not_founds @ [p]))"
proof -
  have sp: "\<not> strict_prefix p q"
  proof
    assume pq: "strict_prefix p q"
    from not_found_loop_below[OF assms(1) assms(3)] obtain c where
      c: "prefix [Tag (el_tag c)] p" by auto
    from not_found_loop_below[OF assms(1) assms(5)] obtain d where
      d: "prefix [Tag (el_tag d)] q"
        "\<forall>p'. prefix [Tag (el_tag d)] p' \<and> strict_prefix p' q \<longrightarrow> found previous_doc p'" by auto
    from c obtain p0 where p: "p = Tag (el_tag c) # p0" by (auto simp: prefix_def)
    from d(1) obtain q0 where q: "q = Tag (el_tag d) # q0" by (auto simp: prefix_def)
    from pq p q have "prefix [Tag (el_tag d)] p" by (auto simp: strict_prefix_def prefix_def)
    with d(2) pq have "found previous_doc p" by blast
    with assms(4) show False by (simp add: found_def)
  qed
  have pl: "list_all plain_element (el_children latest_doc)"
    using assms(2) by (simp add: plain_doc_def)
  have "list_all plain_step p" "list_all plain_step q"
    using not_found_loop_plain[OF assms(1) pl] assms(3,5) by auto
  from descendant_str_steps[OF this] sp
  have "\<not> descendant_str (xpath_str p) (xpath_str q)" by blast
  with sp absent_path_added[OF assms(4)] show ?thesis by simp
qed

lemma interface_and_vlan_walk:
  "not_found_loop equal_trees_diff (el_children interface_and_vlan) scenario_a_previous [] =
     Inr [[Tag ''network'', Tag ''interface''], [Tag ''network'', Tag ''vlan'']]"
  by code_simp

lemma interface_and_vlan_plain: "plain_doc interface_and_vlan"
  by code_simp

lemma interface_absent: "xpath scenario_a_previous [Tag ''network'', Tag ''interface''] = Inr []"
  by code_simp

text \<open>
  The amended C4 at a document with two new elements, the first of which has a child: the
  walk adds the xpath of \<open>interface\<close> and nothing below it.
\<close>

theorem absent_path_has_no_descendant_witness:
  "not_found_loop equal_trees_diff (el_children interface_and_vlan) scenario_a_previous [] =
     Inr [[Tag ''network'', Tag ''interface''], [Tag ''network'', Tag ''vlan'']]
   \<and> plain_doc interface_and_vlan
   \<and> xpath scenario_a_previous [Tag ''network'', Tag ''interface''] = Inr []
   \<and> \<not> strict_prefix [Tag ''network'', Tag ''interface''] [Tag ''network'', Tag ''vlan'']
   \<and> \<not> descendant_str (xpath_str [Tag ''network'', Tag ''interface''])
          (xpath_str [Tag ''network'', Tag ''vlan''])
   \<and> check_element equal_trees_diff
        (Element ''interface'' [] None None [Element ''entry'' [(''name'', ''eth1'')] None None []])
        [Tag ''network'', Tag ''interface''] scenario_a_previous []
      = Inr [[Tag ''network'', Tag ''interface'']]"
proof -
  have "[Tag ''network'', Tag ''interface'']
      \<in> set [[Tag ''network'', Tag ''interface''], [Tag ''network'', Tag ''vlan'']]"
    and "[Tag ''network'', Tag ''vlan'']
      \<in> set [[Tag ''network'', Tag ''interface''], [Tag ''network'', Tag ''vlan'']]"
    by simp_all
  from absent_path_has_no_descendant
    [OF interface_and_vlan_walk interface_and_vlan_plain this(1) interface_absent this(2)]
  have "\<not> strict_prefix [Tag ''network'', Tag ''interface''] [Tag ''network'', Tag ''vlan'']"
    and "\<not> descendant_str (xpath_str [Tag ''network'', Tag ''interface''])
          (xpath_str [Tag ''network'', Tag ''vlan''])"
    and "check_element equal_trees_diff
        (Element ''interface'' [] None None [Element ''entry'' [(''name'', ''eth1'')] None None []])
        [Tag ''network'', Tag ''interface''] scenario_a_previous ([] :: step list list)
      = Inr ([] @ [[Tag ''network'', Tag ''interface'']])"
    by blast+
  with interface_and_vlan_walk interface_and_vlan_plain interface_absent
  show ?thesis by simp
qed

section \<open>A configuration without set commands\<close>

text \<open>
  C10 fails as stated: when \<open>set_cli\<close> gives \<open>None\<close> for the previous configuration, as for
  the configuration \<open><config/>\<close>, whose root has no children, the membership test of the
  first command of the latest configuration raises \<open>TypeError\<close> and no command is
  returned.
\<close>

theorem generate_set_cli_from_configs_counterexample:
  "set_cli_of_empty_root ''<config/>'' = None
   \<and> set_cli_of_empty_root
        ''<config><deviceconfig><system><hostname>fw</hostname></system></deviceconfig></config>''
       = Some [''set deviceconfig system hostname fw'']
   \<and> generate_set_cli_from_configs set_cli_of_empty_root ''<config/>''
        ''<config><deviceconfig><system><hostname>fw</hostname></system></deviceconfig></config>''
       = Inl TypeError"
  by (simp add: generate_set_cli_from_configs_def set_cli_of_empty_root_def)

end
